theory Spec2Isabelle
  imports Main "HOL-Library.AList"
begin

section \<open>The lnd gRPC service base class (services/grpc/grpcService.js)\<close>

text \<open>
  The class \<open>GrpcService\<close> is an event-driven object: its methods run to completion, and
  between two of them the environment delivers events (a caller invokes \<open>connect\<close> or
  \<open>disconnect\<close>, the readiness probe reports, a timer fires, a stream emits \<open>status\<close>
  or \<open>end\<close>). The embedding is a record of the instance's fields together with the
  objects it references (client handles, streaming calls, promises), one function per
  method or listener of the source, and a \<open>step\<close> function that dispatches one event.
\<close>

subsection \<open>Data\<close>

text \<open>The two states of the \<open>StateMachine\<close> configuration (lines 25-30).\<close>

datatype lifecycle = Ready | Connected

datatype transition = Connect | Disconnect

text \<open>
  Errors are values. \<open>InvalidTransition\<close> and \<open>PendingTransition\<close> are the two exceptions
  of the state-machine library; \<open>TypeError\<close> is what JavaScript raises on a property
  access on \<open>undefined\<close>; \<open>Failure\<close> is an error raised by a collaborator (schema
  lookup, credentials, file wait, readiness probe), carrying its message.
  \<open>ConnectionError\<close> is the wrapper named by the interface description; no function
  below constructs it.
\<close>

datatype error =
    InvalidTransition transition lifecycle
  | PendingTransition transition lifecycle
  | TypeError
  | Failure string
  | ConnectionError error

datatype promise = Pending | Resolved | Rejected error

text \<open>\<open>this.lndConfig\<close>: the fields the class reads (lines 113 and 204).\<close>

record lnd_config =
  host :: string
  cert :: string
  macaroon :: string
  protoPath :: string
  lnd_id :: string
  lnd_type :: string

text \<open>The \<open>options\<close> argument of \<open>establishConnection\<close> (line 112).\<close>

record options =
  version :: "string option"
  opt_useMacaroon :: bool
  opt_waitForMacaroon :: bool

datatype creds = SslCreds string | MacaroonCreds string | Combined creds creds

text \<open>A client handle (\<open>this.service\<close>): what it was built from and whether \<open>close()\<close> ran.\<close>

record client =
  client_host :: string
  client_creds :: creds
  closed :: bool

text \<open>
  A streaming call. Its listeners are the closures the class attaches: an \<open>end\<close>
  listener captures the subscription key (line 162), a \<open>status\<close> listener captures the
  key and the \<open>resolve\<close> function of one promise (line 188). \<open>cancels\<close> counts the
  calls of \<open>cancel()\<close>.
\<close>

record call =
  end_listeners :: "string list"
  status_listeners :: "(string \<times> nat) list"
  cancels :: nat

definition new_call :: call where
  "new_call = \<lparr>end_listeners = [], status_listeners = [], cancels = 0\<rparr>"

text \<open>The lines written to \<open>grpcLog\<close>; the service name, part of every line, is left out.\<close>

datatype log_entry =
    Connecting
  | Establishing string string
  | UnableToConnect error
  | ConnectedTo
  | Disconnecting
  | SubscriptionEnded string
  | UnsubscribingAll "string list"
  | Unsubscribing string
  | Unsubscribed string

text \<open>The calls made to collaborators, in order, with their arguments.\<close>

datatype ext_call =
    GetLatestProtoVersion string
  | LoadProto string string
  | CreateSslCreds string
  | WaitForFile string nat
  | CreateMacaroonCreds string
  | NewClient string string
  | WaitForReady nat

text \<open>
  What the state machine is waiting for while a transition is pending: the readiness
  probe of \<open>establishConnection\<close> (line 142), or the promises of \<open>unsubscribe\<close>
  (line 98).
\<close>

datatype in_flight = NoTransition | AwaitReady | AwaitUnsubscribe "nat list"

text \<open>
  The instance. \<open>subscriptions\<close> is the object used as a dictionary (lines 38, 159, 164):
  an association list in insertion order, which is the order of \<open>Object.keys\<close> for names
  that are not array indices. \<open>calls\<close> and \<open>promises\<close> are the stores of the objects the
  instance references; \<open>clients\<close> lists every handle created. \<open>stream_names\<close> stands for
  the \<open>subscribe\<close> override of the concrete service: the names of the streams it opens.
  \<open>timers\<close> holds the pending \<open>delay\<close> continuations, \<open>subscribe_count\<close> counts the
  invocations of \<open>subscribe\<close>.
\<close>

record grpc_service =
  serviceName :: string
  lndConfig :: lnd_config
  useMacaroon :: bool
  stream_names :: "string list"
  fsm_state :: lifecycle
  fsm_pending :: in_flight
  subscriptions :: "(string \<times> nat) list"
  service :: "nat option"
  clients :: "client list"
  calls :: "nat \<Rightarrow> call"
  next_call :: nat
  promises :: "nat \<Rightarrow> promise"
  next_promise :: nat
  timers :: "nat list"
  subscribe_count :: nat
  grpcLog :: "log_entry list"
  ext :: "ext_call list"

text \<open>The constructor (lines 21-42).\<close>

definition GrpcService :: "string \<Rightarrow> lnd_config \<Rightarrow> string list \<Rightarrow> grpc_service" where
  "GrpcService name cfg names =
     \<lparr>serviceName = name, lndConfig = cfg, useMacaroon = True, stream_names = names,
      fsm_state = Ready, fsm_pending = NoTransition, subscriptions = [], service = None,
      clients = [], calls = (\<lambda>_. new_call), next_call = 0, promises = (\<lambda>_. Pending),
      next_promise = 0, timers = [], subscribe_count = 0, grpcLog = [], ext = []\<rparr>"

definition info :: "log_entry \<Rightarrow> grpc_service \<Rightarrow> grpc_service" where
  "info l s = s\<lparr>grpcLog := grpcLog s @ [l]\<rparr>"

definition called :: "ext_call \<Rightarrow> grpc_service \<Rightarrow> grpc_service" where
  "called c s = s\<lparr>ext := ext s @ [c]\<rparr>"

subsection \<open>The state machine\<close>

text \<open>The transition table of the source (lines 27-30).\<close>

fun transitionFor :: "lifecycle \<Rightarrow> transition \<Rightarrow> lifecycle option" where
  "transitionFor Ready Connect = Some Connected"
| "transitionFor Connected Disconnect = Some Ready"
| "transitionFor _ _ = None"

text \<open>
  Modelled from the spec: the guard of the state-machine library (the package
  \<open>javascript-state-machine\<close>, not among the sources). A transition that the table does
  not allow from the current state fails with the invalid-transition error; a transition
  requested while another is in flight is rejected; the state changes only after the
  \<open>onBefore\<close> hook has completed, and a hook that fails leaves it unchanged.
\<close>

definition fire :: "transition \<Rightarrow> grpc_service \<Rightarrow> error + lifecycle" where
  "fire t s =
     (case transitionFor (fsm_state s) t of
        None \<Rightarrow> Inl (InvalidTransition t (fsm_state s))
      | Some to \<Rightarrow>
          if fsm_pending s \<noteq> NoTransition then Inl (PendingTransition t (fsm_state s))
          else Inr to)"

definition "is" :: "lifecycle \<Rightarrow> grpc_service \<Rightarrow> bool" where
  "is st s = (fsm_state s = st)"

definition can :: "transition \<Rightarrow> grpc_service \<Rightarrow> bool" where
  "can t s = (fsm_pending s = NoTransition \<and> transitionFor (fsm_state s) t \<noteq> None)"

subsection \<open>Connection settings and establishment\<close>

text \<open>\<open>_getConnectionSettings\<close> (lines 203-211).\<close>

definition getConnectionSettings :: "grpc_service \<Rightarrow> options" where
  "getConnectionSettings s =
     \<lparr>version = None,
      opt_useMacaroon = (useMacaroon s \<and> lnd_id (lndConfig s) \<noteq> ''tmp''),
      opt_waitForMacaroon = (lnd_type (lndConfig s) = ''local'')\<rparr>"

text \<open>
  The outcomes of the collaborators that \<open>establishConnection\<close> awaits before it
  creates the client: the schema lookup, the schema load, the two credential builders
  and the wait for the macaroon file.
\<close>

record conn_env =
  latest_version :: "error + string"
  load_result :: "error + unit"
  ssl_result :: "error + unit"
  file_result :: "error + unit"
  macaroon_result :: "error + unit"

text \<open>Lines 127-135: the credentials, with the macaroon stacked on when asked for.\<close>

definition build_creds :: "options \<Rightarrow> conn_env \<Rightarrow> grpc_service \<Rightarrow> (error + creds) \<times> grpc_service" where
  "build_creds opts env s =
     (let cfg = lndConfig s; s1 = called (CreateSslCreds (cert cfg)) s in
      case ssl_result env of
        Inl e \<Rightarrow> (Inl e, s1)
      | Inr _ \<Rightarrow>
          if opt_useMacaroon opts then
            (let s2 = (if opt_waitForMacaroon opts
                       then called (WaitForFile (macaroon cfg) 20000) s1 else s1) in
             case (if opt_waitForMacaroon opts then file_result env else Inr ()) of
               Inl e \<Rightarrow> (Inl e, s2)
             | Inr _ \<Rightarrow>
                 (let s3 = called (CreateMacaroonCreds (macaroon cfg)) s2 in
                  case macaroon_result env of
                    Inl e \<Rightarrow> (Inl e, s3)
                  | Inr _ \<Rightarrow>
                      (Inr (Combined (SslCreds (cert cfg)) (MacaroonCreds (macaroon cfg))), s3)))
          else (Inr (SslCreds (cert cfg)), s1))"

text \<open>
  \<open>establishConnection\<close> up to the readiness probe (lines 111-142). \<open>version || ...\<close>
  takes the latest version also for the empty string. The awaits before the probe are
  taken in one step: nothing of the instance is written between them. The probe is
  issued with \<open>getDeadline(10)\<close>.
\<close>

definition establishConnection :: "options \<Rightarrow> conn_env \<Rightarrow> grpc_service \<Rightarrow> (error + unit) \<times> grpc_service" where
  "establishConnection opts env s =
     (let cfg = lndConfig s;
          given = (case version opts of None \<Rightarrow> None | Some v \<Rightarrow> if v = [] then None else Some v);
          s1 = (case given of None \<Rightarrow> called (GetLatestProtoVersion (protoPath cfg)) s | Some _ \<Rightarrow> s)
      in case (case given of None \<Rightarrow> latest_version env | Some v \<Rightarrow> Inr v) of
        Inl e \<Rightarrow> (Inl e, s1)
      | Inr v \<Rightarrow>
          (let s2 = called (LoadProto (protoPath cfg) v) (info (Establishing (protoPath cfg) v) s1) in
           case load_result env of
             Inl e \<Rightarrow> (Inl e, s2)
           | Inr _ \<Rightarrow>
               (case build_creds opts env s2 of
                  (Inl e, s3) \<Rightarrow> (Inl e, s3)
                | (Inr cr, s3) \<Rightarrow>
                    (let s4 = called (NewClient (serviceName s) (host cfg)) s3;
                         s5 = s4\<lparr>service := Some (length (clients s4)),
                                 clients := clients s4 @
                                   [\<lparr>client_host = host cfg, client_creds = cr, closed = False\<rparr>]\<rparr>
                     in (Inr (), called (WaitForReady 10) s5)))))"

text \<open>\<open>this.service.close()\<close>.\<close>

definition close :: "grpc_service \<Rightarrow> grpc_service" where
  "close s =
     (case service s of
        None \<Rightarrow> s
      | Some i \<Rightarrow> s\<lparr>clients := (clients s)[i := (clients s ! i)\<lparr>closed := True\<rparr>]\<rparr>)"

subsection \<open>Subscriptions\<close>

text \<open>
  The \<open>end\<close> listener of line 162: it logs that the subscription ended and deletes the
  entry of its key.
\<close>

definition on_end :: "string \<Rightarrow> grpc_service \<Rightarrow> grpc_service" where
  "on_end key s =
     (info (SubscriptionEnded key) s)\<lparr>subscriptions := AList.delete key (subscriptions s)\<rparr>"

text \<open>
  One round of the \<open>forEach\<close> of \<open>subscribe\<close> (lines 160-166): the call registered under
  the key gets an \<open>end\<close> listener. The keys come from \<open>Object.keys\<close>, so the entry
  exists.
\<close>

definition attach_end :: "string \<Rightarrow> grpc_service \<Rightarrow> grpc_service" where
  "attach_end key s =
     (case map_of (subscriptions s) key of
        None \<Rightarrow> s
      | Some c \<Rightarrow>
          s\<lparr>calls := (calls s)(c := (calls s c)\<lparr>end_listeners := end_listeners (calls s c) @ [key]\<rparr>)\<rparr>)"

text \<open>\<open>subscribe\<close> of the base class (lines 154-167).\<close>

definition subscribe :: "grpc_service \<Rightarrow> grpc_service" where
  "subscribe s = fold attach_end (map fst (subscriptions s)) s"

text \<open>
  The override of a concrete service, as the comment of lines 152-156 prescribes: it
  opens its streams, stores each under its name and calls \<open>super.subscribe()\<close>.
\<close>

definition open_stream :: "string \<Rightarrow> grpc_service \<Rightarrow> grpc_service" where
  "open_stream name s =
     s\<lparr>calls := (calls s)(next_call s := new_call),
       next_call := Suc (next_call s),
       subscriptions := AList.update name (next_call s) (subscriptions s)\<rparr>"

definition subscribe_override :: "grpc_service \<Rightarrow> grpc_service" where
  "subscribe_override s =
     subscribe ((fold open_stream (stream_names s) s)\<lparr>subscribe_count := Suc (subscribe_count s)\<rparr>)"

text \<open>The status code \<open>status.CANCELLED\<close> of the gRPC library, and \<open>status.OK\<close>.\<close>

definition CANCELLED :: nat where
  "CANCELLED = 1"

definition OK :: nat where
  "OK = 0"

text \<open>\<open>resolve()\<close> settles a pending promise and does nothing to a settled one.\<close>

definition resolve :: "nat \<Rightarrow> grpc_service \<Rightarrow> grpc_service" where
  "resolve p s =
     (if promises s p = Pending then s\<lparr>promises := (promises s)(p := Resolved)\<rparr> else s)"

text \<open>The \<open>status\<close> listener of lines 188-194.\<close>

definition on_status :: "nat \<Rightarrow> string \<times> nat \<Rightarrow> grpc_service \<Rightarrow> grpc_service" where
  "on_status code l s =
     (if code = CANCELLED
      then resolve (snd l)
             (info (Unsubscribed (fst l))
                (s\<lparr>subscriptions := AList.delete (fst l) (subscriptions s)\<rparr>))
      else s)"

text \<open>
  \<open>_cancelSubscription\<close> (lines 182-201). It returns the promise of the \<open>async\<close>
  function. With no entry under the key, \<open>call\<close> is \<open>undefined\<close>: \<open>call.on\<close> throws
  inside the executor and \<open>call.cancel()\<close> throws in the body, so the promise is
  rejected with a \<open>TypeError\<close>.
\<close>

definition cancelSubscription :: "string \<Rightarrow> grpc_service \<Rightarrow> nat \<times> grpc_service" where
  "cancelSubscription key s =
     (let p = next_promise s;
          s1 = (info (Unsubscribing key) s)\<lparr>next_promise := Suc p\<rparr>
      in case map_of (subscriptions s) key of
        None \<Rightarrow> (p, s1\<lparr>promises := (promises s)(p := Rejected TypeError)\<rparr>)
      | Some c \<Rightarrow>
          (p, s1\<lparr>promises := (promises s)(p := Pending),
                 calls := (calls s)(c := (calls s c)
                   \<lparr>status_listeners := status_listeners (calls s c) @ [(key, p)],
                    cancels := Suc (cancels (calls s c))\<rparr>)\<rparr>))"

text \<open>The \<open>map\<close> of line 175.\<close>

fun cancel_each :: "string list \<Rightarrow> grpc_service \<Rightarrow> nat list \<times> grpc_service" where
  "cancel_each [] s = ([], s)"
| "cancel_each (key # keys) s =
     (case cancelSubscription key s of
        (p, s1) \<Rightarrow> (case cancel_each keys s1 of (ps, s2) \<Rightarrow> (p # ps, s2)))"

text \<open>
  \<open>unsubscribe\<close> (lines 172-177) up to its \<open>await\<close>: it returns the promises it waits
  for. \<open>promise_all\<close> is the state of \<open>Promise.all\<close> over them.
\<close>

definition unsubscribe :: "grpc_service \<Rightarrow> nat list \<times> grpc_service" where
  "unsubscribe s =
     (let activeSubKeys = map fst (subscriptions s)
      in cancel_each activeSubKeys (info (UnsubscribingAll activeSubKeys) s))"

fun promise_all :: "(nat \<Rightarrow> promise) \<Rightarrow> nat list \<Rightarrow> promise" where
  "promise_all pr [] = Resolved"
| "promise_all pr (p # ps) =
     (case pr p of
        Rejected e \<Rightarrow> Rejected e
      | Pending \<Rightarrow> (case promise_all pr ps of Rejected e \<Rightarrow> Rejected e | _ \<Rightarrow> Pending)
      | Resolved \<Rightarrow> promise_all pr ps)"

subsection \<open>The hooks of the transitions\<close>

text \<open>
  \<open>onAfterConnect\<close> (lines 79-91): \<open>subscribeAfterDelay\<close> runs up to its \<open>await
  delay(2000)\<close>, then the line is logged.
\<close>

definition onAfterConnect :: "grpc_service \<Rightarrow> grpc_service" where
  "onAfterConnect s = info ConnectedTo (s\<lparr>timers := timers s @ [2000]\<rparr>)"

text \<open>
  \<open>connect\<close> (line 48) with \<open>onBeforeConnect\<close> (lines 68-74). The result is \<open>Inl\<close> for
  the exception of the guard, thrown to the caller, and otherwise the state of the
  promise that \<open>connect\<close> returns, as it is when the step ends.
\<close>

definition connect :: "conn_env \<Rightarrow> grpc_service \<Rightarrow> (error + promise) \<times> grpc_service" where
  "connect env s =
     (case fire Connect s of
        Inl e \<Rightarrow> (Inl e, s)
      | Inr to \<Rightarrow>
          (case establishConnection (getConnectionSettings s) env
                  (info Connecting (s\<lparr>fsm_pending := AwaitReady\<rparr>)) of
             (Inl e, s1) \<Rightarrow> (Inr (Rejected e), s1\<lparr>fsm_pending := NoTransition\<rparr>)
           | (Inr _, s1) \<Rightarrow> (Inr Pending, s1)))"

text \<open>
  The readiness probe reports (lines 142-147). On success the hook returns, the state
  becomes \<open>connected\<close> and \<open>onAfterConnect\<close> runs; on failure the handle is closed and
  the error is thrown again, which fails the transition. The result is the state of the
  promise of \<open>connect\<close>. With no probe outstanding nothing happens.
\<close>

definition waitForReady_done :: "error + unit \<Rightarrow> grpc_service \<Rightarrow> promise \<times> grpc_service" where
  "waitForReady_done r s =
     (if fsm_pending s \<noteq> AwaitReady then (Pending, s)
      else case r of
        Inl e \<Rightarrow> (Rejected e, (close (info (UnableToConnect e) s))\<lparr>fsm_pending := NoTransition\<rparr>)
      | Inr _ \<Rightarrow>
          (Resolved, (onAfterConnect (s\<lparr>fsm_state := Connected\<rparr>))\<lparr>fsm_pending := NoTransition\<rparr>))"

text \<open>
  \<open>onBeforeDisconnect\<close> after its \<open>await this.unsubscribe()\<close> (lines 98-102): once
  every promise is resolved the handle is closed and the state becomes \<open>ready\<close>.
\<close>

definition onBeforeDisconnect_resume :: "nat list \<Rightarrow> grpc_service \<Rightarrow> promise \<times> grpc_service" where
  "onBeforeDisconnect_resume ps s =
     (case promise_all (promises s) ps of
        Pending \<Rightarrow> (Pending, s\<lparr>fsm_pending := AwaitUnsubscribe ps\<rparr>)
      | Rejected e \<Rightarrow> (Rejected e, s\<lparr>fsm_pending := NoTransition\<rparr>)
      | Resolved \<Rightarrow> (Resolved, (close s)\<lparr>fsm_state := Ready, fsm_pending := NoTransition\<rparr>))"

text \<open>\<open>disconnect\<close> (line 51) with \<open>onBeforeDisconnect\<close> (lines 96-102).\<close>

definition disconnect :: "grpc_service \<Rightarrow> (error + promise) \<times> grpc_service" where
  "disconnect s =
     (case fire Disconnect s of
        Inl e \<Rightarrow> (Inl e, s)
      | Inr to \<Rightarrow>
          (case unsubscribe (info Disconnecting (s\<lparr>fsm_pending := AwaitUnsubscribe []\<rparr>)) of
             (ps, s1) \<Rightarrow>
               (case onBeforeDisconnect_resume ps s1 of (r, s2) \<Rightarrow> (Inr r, s2))))"

subsection \<open>Events\<close>

text \<open>
  The \<open>delay\<close> of \<open>subscribeAfterDelay\<close> elapses (lines 84-87): the oldest timer fires
  and the state is checked then.
\<close>

definition delay_elapsed :: "grpc_service \<Rightarrow> grpc_service" where
  "delay_elapsed s =
     (case timers s of
        [] \<Rightarrow> s
      | d # ds \<Rightarrow>
          (let s1 = s\<lparr>timers := ds\<rparr>
           in if is Connected s1 then subscribe_override s1 else s1))"

text \<open>
  A call emits \<open>status\<close> with a code: its listeners run in order, and a disconnect that
  waits for the promises goes on if they are all resolved.
\<close>

definition stream_status :: "nat \<Rightarrow> nat \<Rightarrow> grpc_service \<Rightarrow> grpc_service" where
  "stream_status c code s =
     (let s1 = fold (on_status code) (status_listeners (calls s c)) s
      in case fsm_pending s1 of
        AwaitUnsubscribe ps \<Rightarrow> snd (onBeforeDisconnect_resume ps s1)
      | _ \<Rightarrow> s1)"

text \<open>A call emits \<open>end\<close>.\<close>

definition stream_end :: "nat \<Rightarrow> grpc_service \<Rightarrow> grpc_service" where
  "stream_end c s = fold on_end (end_listeners (calls s c)) s"

datatype event =
    CallConnect conn_env
  | ProbeDone "error + unit"
  | CallDisconnect
  | DelayElapsed
  | StreamStatus nat nat
  | StreamEnd nat

fun step :: "event \<Rightarrow> grpc_service \<Rightarrow> grpc_service" where
  "step (CallConnect env) s = snd (connect env s)"
| "step (ProbeDone r) s = snd (waitForReady_done r s)"
| "step CallDisconnect s = snd (disconnect s)"
| "step DelayElapsed s = delay_elapsed s"
| "step (StreamStatus c code) s = stream_status c code s"
| "step (StreamEnd c) s = stream_end c s"

definition run :: "event list \<Rightarrow> grpc_service \<Rightarrow> grpc_service" where
  "run evs s = fold step evs s"

subsection \<open>Predicates used in the statements\<close>

text \<open>The collaborator calls that concern the macaroon.\<close>

fun is_macaroon_call :: "ext_call \<Rightarrow> bool" where
  "is_macaroon_call (WaitForFile _ _) = True"
| "is_macaroon_call (CreateMacaroonCreds _) = True"
| "is_macaroon_call _ = False"

text \<open>The event by which a connect completes: the readiness probe reports success.\<close>

fun completes_connect :: "event \<Rightarrow> bool" where
  "completes_connect (ProbeDone (Inr _)) = True"
| "completes_connect _ = False"

text \<open>The events by which the call \<open>c\<close> ends without a cancellation: a status with another code, the end.\<close>

fun ends_naturally :: "nat \<Rightarrow> event \<Rightarrow> bool" where
  "ends_naturally c (StreamStatus c' code) = (c' = c \<and> code \<noteq> CANCELLED)"
| "ends_naturally c (StreamEnd c') = (c' = c)"
| "ends_naturally c _ = False"

text \<open>
  The names of the registry, and the condition that every \<open>status\<close> listener holds a
  promise that has been created.
\<close>

definition keys :: "grpc_service \<Rightarrow> string set" where
  "keys s = fst ` set (subscriptions s)"

definition fresh_promises :: "grpc_service \<Rightarrow> bool" where
  "fresh_promises s = (\<forall>c. \<forall>l \<in> set (status_listeners (calls s c)). snd l < next_promise s)"

text \<open>
  Every registered stream has been opened; and at most the handle that \<open>this.service\<close>
  refers to is open, none at all when the machine is \<open>ready\<close> with no transition in
  flight, the state being \<open>ready\<close> while a connect is in flight and \<open>connected\<close> while a
  disconnect is.
\<close>

definition opened :: "grpc_service \<Rightarrow> bool" where
  "opened s = (\<forall>z \<in> set (subscriptions s). snd z < next_call s)"

definition handles_ok :: "grpc_service \<Rightarrow> bool" where
  "handles_ok s =
     ((\<forall>i < length (clients s). \<not> closed (clients s ! i) \<longrightarrow> service s = Some i) \<and>
      (case fsm_pending s of
         NoTransition \<Rightarrow> fsm_state s = Ready \<longrightarrow> list_all closed (clients s)
       | AwaitReady \<Rightarrow> fsm_state s = Ready
       | AwaitUnsubscribe ps \<Rightarrow> fsm_state s = Connected))"

text \<open>
  A promise \<open>p\<close> waits for the confirmation of the opened call \<open>c\<close>: it is pending, the
  listener that resolves it sits on \<open>c\<close>, and on no other call does a listener hold it.
\<close>

definition awaiting :: "nat \<Rightarrow> string \<Rightarrow> nat \<Rightarrow> grpc_service \<Rightarrow> bool" where
  "awaiting c key p s =
     (promises s p = Pending \<and> p < next_promise s \<and> c < next_call s \<and> fresh_promises s \<and>
      (key, p) \<in> set (status_listeners (calls s c)) \<and>
      (\<forall>c' l. l \<in> set (status_listeners (calls s c')) \<longrightarrow> snd l = p \<longrightarrow> c' = c))"

text \<open>
  The pairs of a name and its promise that one \<open>unsubscribe\<close> waits for: each promise
  belongs to one pair, no listener holds it for another name, and it is not resolved
  while its name is in the registry.
\<close>

definition tracked :: "(string \<times> nat) list \<Rightarrow> grpc_service \<Rightarrow> bool" where
  "tracked Z s =
     (distinct (map snd Z) \<and> fresh_promises s \<and>
      (\<forall>z \<in> set Z. snd z < next_promise s \<and> (promises s (snd z) = Resolved \<longrightarrow> fst z \<notin> keys s)) \<and>
      (\<forall>c. \<forall>l \<in> set (status_listeners (calls s c)). snd l \<in> snd ` set Z \<longrightarrow> l \<in> set Z))"

subsection \<open>Example instances\<close>

definition cfg_local :: lnd_config where
  "cfg_local = \<lparr>host = ''localhost:10009'', cert = ''tls.cert'', macaroon = ''admin.macaroon'',
                 protoPath = ''proto'', lnd_id = ''wallet-1'', lnd_type = ''local''\<rparr>"

definition cfg_tmp :: lnd_config where
  "cfg_tmp = cfg_local\<lparr>lnd_id := ''tmp''\<rparr>"

definition env_ok :: conn_env where
  "env_ok = \<lparr>latest_version = Inr ''0.9.0'', load_result = Inr (), ssl_result = Inr (),
              file_result = Inr (), macaroon_result = Inr ()\<rparr>"

text \<open>A fresh instance, and one whose state machine is in state \<open>connected\<close>.\<close>

definition ready_service :: grpc_service where
  "ready_service = GrpcService ''Lightning'' cfg_local []"

definition connected_service :: grpc_service where
  "connected_service = ready_service\<lparr>fsm_state := Connected\<rparr>"

text \<open>An instance with two streams, as a concrete service would declare them.\<close>

definition xy_service :: grpc_service where
  "xy_service = GrpcService ''Lightning'' cfg_local [''channelgraph'', ''invoices'']"

text \<open>The error of a probe that ran into its deadline, and an instance after one failed attempt.\<close>

definition deadline_error :: error where
  "deadline_error = Failure ''Failed to connect before the deadline''"

definition failed_once :: grpc_service where
  "failed_once = snd (waitForReady_done (Inl deadline_error) (snd (connect env_ok ready_service)))"

text \<open>The instance after one cycle: connected, then disconnected at once.\<close>

definition cycle_done :: grpc_service where
  "cycle_done = run [CallConnect env_ok, ProbeDone (Inr ()), CallDisconnect] xy_service"

text \<open>The instance inside the override, when the streams are open and \<open>super.subscribe()\<close> is next.\<close>

definition streams_opened :: grpc_service where
  "streams_opened = fold open_stream (stream_names xy_service) xy_service"

text \<open>The instance once connected, after the delay, with its two streams registered.\<close>

definition subscribed :: grpc_service where
  "subscribed = run [CallConnect env_ok, ProbeDone (Inr ()), DelayElapsed] xy_service"

text \<open>
  The instance connected a second time within the delay of the first connect: the first
  timer has fired and registered the streams, the second is pending.
\<close>

definition reconnected :: grpc_service where
  "reconnected = run [CallConnect env_ok, ProbeDone (Inr ()), DelayElapsed] cycle_done"

section \<open>Properties\<close>

subsection \<open>Connection settings\<close>

text \<open>
  C5. For every configuration, the derived setting \<open>useMacaroon\<close> is false whenever the
  identifier is \<open>tmp\<close>, whatever the environment tag, and \<open>waitForMacaroon\<close> is true
  exactly when the tag is \<open>local\<close>.
\<close>

theorem connection_settings:
  "(lnd_id (lndConfig s) = ''tmp'' \<longrightarrow> \<not> opt_useMacaroon (getConnectionSettings s)) \<and>
   opt_waitForMacaroon (getConnectionSettings s) = (lnd_type (lndConfig s) = ''local'')"
  by (simp add: getConnectionSettings_def)

theorem connection_settings_witness:
  "lnd_id (lndConfig (GrpcService ''Lightning'' cfg_tmp [])) = ''tmp'' \<and>
   \<not> opt_useMacaroon (getConnectionSettings (GrpcService ''Lightning'' cfg_tmp [])) \<and>
   opt_waitForMacaroon (getConnectionSettings (GrpcService ''Lightning'' cfg_tmp []))"
  using connection_settings [of "GrpcService ''Lightning'' cfg_tmp []"]
  by (simp add: GrpcService_def cfg_tmp_def cfg_local_def)

lemma build_creds_no_macaroon:
  "\<not> opt_useMacaroon opts \<Longrightarrow> build_creds opts env s = (r, s') \<Longrightarrow>
   ext s' = ext s @ [CreateSslCreds (cert (lndConfig s))] \<and> clients s' = clients s \<and>
   lndConfig s' = lndConfig s \<and> (\<forall>cr. r = Inr cr \<longrightarrow> cr = SslCreds (cert (lndConfig s)))"
  by (auto simp: build_creds_def called_def Let_def split: sum.splits)

lemma establishConnection_no_macaroon:
  assumes "\<not> opt_useMacaroon opts" and "establishConnection opts env s = (r, s')"
  shows "\<exists>xs. ext s' = ext s @ xs \<and> (\<forall>c \<in> set xs. \<not> is_macaroon_call c)"
    and "\<exists>ys. clients s' = clients s @ ys \<and>
           (\<forall>cl \<in> set ys. client_creds cl = SslCreds (cert (lndConfig s)))"
  using assms
  by (auto simp: establishConnection_def called_def info_def Let_def
      split: sum.splits option.splits if_splits prod.splits
      dest!: build_creds_no_macaroon[rotated])

lemma connect_no_macaroon:
  assumes "\<not> useMacaroon s"
  shows "\<exists>xs ys. ext (snd (connect env s)) = ext s @ xs \<and> (\<forall>c \<in> set xs. \<not> is_macaroon_call c) \<and>
           clients (snd (connect env s)) = clients s @ ys \<and>
           (\<forall>cl \<in> set ys. client_creds cl = SslCreds (cert (lndConfig s)))"
proof (cases "fire Connect s")
  case (Inl e)
  then show ?thesis by (simp add: connect_def)
next
  case (Inr to)
  let ?s0 = "info Connecting (s\<lparr>fsm_pending := AwaitReady\<rparr>)"
  obtain r s1 where est: "establishConnection (getConnectionSettings s) env ?s0 = (r, s1)"
    by (cases "establishConnection (getConnectionSettings s) env ?s0")
  have no: "\<not> opt_useMacaroon (getConnectionSettings s)"
    using assms by (simp add: getConnectionSettings_def)
  from establishConnection_no_macaroon[OF no est]
  obtain xs ys where "ext s1 = ext s @ xs" "\<forall>c \<in> set xs. \<not> is_macaroon_call c"
    "clients s1 = clients s @ ys" "\<forall>cl \<in> set ys. client_creds cl = SslCreds (cert (lndConfig s))"
    by (auto simp: info_def)
  then show ?thesis
    using Inr est by (cases r) (auto simp: connect_def)
qed

text \<open>
  C10. The derived setting is the conjunction of the instance's flag \<open>useMacaroon\<close>, which
  the constructor sets to true, with the check that the identifier is not \<open>tmp\<close>. Once the
  flag is cleared, a connection attempt makes no call that concerns the macaroon (neither
  the wait for the file nor the credential builder) and every client it creates carries
  the transport credentials alone, for every configuration and every outcome of the
  collaborators.
\<close>

theorem instance_flag_gate:
  "useMacaroon (GrpcService name cfg names) \<and>
   opt_useMacaroon (getConnectionSettings s) = (useMacaroon s \<and> lnd_id (lndConfig s) \<noteq> ''tmp'') \<and>
   (\<not> useMacaroon s \<longrightarrow>
      (\<exists>xs ys. ext (snd (connect env s)) = ext s @ xs \<and> (\<forall>c \<in> set xs. \<not> is_macaroon_call c) \<and>
         clients (snd (connect env s)) = clients s @ ys \<and>
         (\<forall>cl \<in> set ys. client_creds cl = SslCreds (cert (lndConfig s)))))"
  using connect_no_macaroon[of s env]
  by (simp add: GrpcService_def getConnectionSettings_def)

theorem instance_flag_gate_witness:
  "\<not> useMacaroon (ready_service\<lparr>useMacaroon := False\<rparr>) \<and>
   ext (snd (connect env_ok (ready_service\<lparr>useMacaroon := False\<rparr>))) =
     [GetLatestProtoVersion ''proto'', LoadProto ''proto'' ''0.9.0'', CreateSslCreds ''tls.cert'',
      NewClient ''Lightning'' ''localhost:10009'', WaitForReady 10] \<and>
   map client_creds (clients (snd (connect env_ok (ready_service\<lparr>useMacaroon := False\<rparr>)))) =
     [SslCreds ''tls.cert'']"
  using instance_flag_gate [of "''Lightning''" cfg_local "[]"
      "ready_service\<lparr>useMacaroon := False\<rparr>" env_ok]
  by (simp add: ready_service_def GrpcService_def cfg_local_def env_ok_def connect_def fire_def
      getConnectionSettings_def establishConnection_def build_creds_def called_def info_def)

subsection \<open>The guard of the transitions\<close>

text \<open>
  C2. \<open>connect\<close> is accepted only in state \<open>ready\<close> and \<open>disconnect\<close> only in state
  \<open>connected\<close>. Invoked from any other state, the call fails with the invalid-transition
  error and the instance is left as it was: the state, the subscription registry and
  every other field.
\<close>

theorem transition_guard:
  "(fsm_state s \<noteq> Ready \<longrightarrow> connect env s = (Inl (InvalidTransition Connect (fsm_state s)), s)) \<and>
   (fsm_state s \<noteq> Connected \<longrightarrow> disconnect s = (Inl (InvalidTransition Disconnect (fsm_state s)), s)) \<and>
   ((\<exists>r s'. connect env s = (Inr r, s')) \<longrightarrow> fsm_state s = Ready) \<and>
   ((\<exists>r s'. disconnect s = (Inr r, s')) \<longrightarrow> fsm_state s = Connected)"
  by (cases "fsm_state s")
     (auto simp: connect_def disconnect_def fire_def split: sum.splits prod.splits if_splits)

theorem transition_guard_witness:
  "fsm_state connected_service \<noteq> Ready \<and>
   connect env_ok connected_service = (Inl (InvalidTransition Connect Connected), connected_service) \<and>
   fsm_state ready_service \<noteq> Connected \<and>
   disconnect ready_service = (Inl (InvalidTransition Disconnect Ready), ready_service) \<and>
   (\<exists>r s'. connect env_ok ready_service = (Inr r, s')) \<and>
   (\<exists>r s'. disconnect connected_service = (Inr r, s'))"
proof -
  have acc: "(\<exists>r s'. connect env_ok ready_service = (Inr r, s'))"
    by (simp add: ready_service_def GrpcService_def cfg_local_def env_ok_def connect_def fire_def
        getConnectionSettings_def establishConnection_def build_creds_def called_def info_def)
  have acd: "(\<exists>r s'. disconnect connected_service = (Inr r, s'))"
    by (simp add: connected_service_def ready_service_def GrpcService_def disconnect_def fire_def
        unsubscribe_def info_def onBeforeDisconnect_resume_def)
  have c: "fsm_state connected_service = Connected" and r: "fsm_state ready_service = Ready"
    by (simp_all add: connected_service_def ready_service_def GrpcService_def)
  show ?thesis
    using transition_guard [of connected_service env_ok] transition_guard [of ready_service env_ok]
      acc acd c r
    by simp
qed

subsection \<open>A failed readiness probe\<close>

lemmas eval_defs = ready_service_def GrpcService_def cfg_local_def env_ok_def connect_def fire_def
  getConnectionSettings_def establishConnection_def build_creds_def called_def info_def
  waitForReady_done_def close_def deadline_error_def failed_once_def

lemma close_frame [simp]:
  "fsm_state (close s) = fsm_state s" "fsm_pending (close s) = fsm_pending s"
  "subscriptions (close s) = subscriptions s" "promises (close s) = promises s"
  "calls (close s) = calls s" "next_promise (close s) = next_promise s"
  "next_call (close s) = next_call s" "subscribe_count (close s) = subscribe_count s"
  "grpcLog (close s) = grpcLog s" "timers (close s) = timers s" "service (close s) = service s"
  "stream_names (close s) = stream_names s"
  by (simp_all add: close_def split: option.splits)

lemma build_creds_frame:
  "build_creds opts env s = (r, s') \<Longrightarrow>
   fsm_state s' = fsm_state s \<and> fsm_pending s' = fsm_pending s \<and>
   subscriptions s' = subscriptions s \<and> clients s' = clients s \<and> service s' = service s \<and>
   lndConfig s' = lndConfig s \<and> serviceName s' = serviceName s \<and> grpcLog s' = grpcLog s"
  by (auto simp: build_creds_def called_def Let_def split: sum.splits if_splits)

lemma establishConnection_probe:
  assumes "establishConnection opts env s = (Inr u, s')"
  shows "last (ext s') = WaitForReady 10 \<and> service s' = Some (length (clients s)) \<and>
         (\<exists>cr. clients s' = clients s @
            [\<lparr>client_host = host (lndConfig s), client_creds = cr, closed = False\<rparr>]) \<and>
         fsm_state s' = fsm_state s \<and> fsm_pending s' = fsm_pending s \<and>
         subscriptions s' = subscriptions s"
  using assms
  by (auto simp: establishConnection_def called_def info_def Let_def
      split: sum.splits option.splits if_splits prod.splits dest!: build_creds_frame)

lemma connect_probe:
  assumes "connect env s = (Inr Pending, s')"
  shows "fsm_state s = Ready \<and> fsm_pending s = NoTransition \<and>
         last (ext s') = WaitForReady 10 \<and> service s' = Some (length (clients s)) \<and>
         (\<exists>cr. clients s' = clients s @
            [\<lparr>client_host = host (lndConfig s), client_creds = cr, closed = False\<rparr>]) \<and>
         fsm_state s' = Ready \<and> fsm_pending s' = AwaitReady \<and>
         subscriptions s' = subscriptions s"
proof -
  from assms obtain to where f: "fire Connect s = Inr to"
    by (auto simp: connect_def split: sum.splits)
  then have st: "fsm_state s = Ready \<and> fsm_pending s = NoTransition"
    by (cases "fsm_state s") (auto simp: fire_def split: if_splits)
  let ?s0 = "info Connecting (s\<lparr>fsm_pending := AwaitReady\<rparr>)"
  from assms f obtain u where "establishConnection (getConnectionSettings s) env ?s0 = (Inr u, s')"
    by (auto simp: connect_def split: sum.splits prod.splits)
  from establishConnection_probe[OF this] show ?thesis
    using st by (auto simp: info_def)
qed

text \<open>
  C3, as the code has it. Let a connection attempt have issued its readiness probe (with
  the deadline of 10) on an instance none of whose earlier handles is open. When the probe
  fails or times out with an error \<open>e\<close>, the promise of \<open>connect\<close> is rejected with \<open>e\<close>
  itself, thrown again unchanged; by then the new handle has been closed, so no handle is
  left open, the state is still \<open>ready\<close>, no transition is in flight and the registry is
  as before.
\<close>

theorem failed_probe:
  assumes "connect env s = (Inr Pending, s1)" and "list_all closed (clients s)"
  shows "last (ext s1) = WaitForReady 10 \<and>
         (case waitForReady_done (Inl e) s1 of
            (r, s2) \<Rightarrow> r = Rejected e \<and> fsm_state s2 = Ready \<and> fsm_pending s2 = NoTransition \<and>
              list_all closed (clients s2) \<and> subscriptions s2 = subscriptions s)"
  using connect_probe[OF assms(1)] assms(2)
  by (auto simp: waitForReady_done_def close_def info_def)

text \<open>The witness is a second attempt after a failed one: both handles end up closed.\<close>

theorem failed_probe_witness:
  "connect env_ok failed_once = (Inr Pending, snd (connect env_ok failed_once)) \<and>
   list_all closed (clients failed_once) \<and> length (clients failed_once) = 1 \<and>
   last (ext (snd (connect env_ok failed_once))) = WaitForReady 10 \<and>
   (case waitForReady_done (Inl deadline_error) (snd (connect env_ok failed_once)) of
      (r, s2) \<Rightarrow> r = Rejected deadline_error \<and> fsm_state s2 = Ready \<and>
        fsm_pending s2 = NoTransition \<and> list_all closed (clients s2) \<and> length (clients s2) = 2 \<and>
        subscriptions s2 = subscriptions failed_once)"
proof -
  have a: "connect env_ok failed_once = (Inr Pending, snd (connect env_ok failed_once))"
    by (simp add: eval_defs)
  have b: "list_all closed (clients failed_once)" "length (clients failed_once) = 1"
    by (simp_all add: eval_defs)
  have c: "length (clients (snd (waitForReady_done (Inl deadline_error)
             (snd (connect env_ok failed_once))))) = 2"
    by (simp add: eval_defs)
  show ?thesis
    using a b c failed_probe [OF a b(1), of deadline_error]
    by (simp split: prod.splits)
qed

text \<open>
  The claim as stated fails: the error that surfaces is the cause itself, not a
  \<open>ConnectionError\<close> that wraps it.
\<close>

theorem failed_probe_counterexample:
  "fst (waitForReady_done (Inl deadline_error) (snd (connect env_ok ready_service))) =
     Rejected deadline_error \<and>
   fst (waitForReady_done (Inl deadline_error) (snd (connect env_ok ready_service))) \<noteq>
     Rejected (ConnectionError deadline_error)"
  by (simp add: eval_defs)

subsection \<open>What the listeners change\<close>

lemmas run_defs = run_def xy_service_def GrpcService_def cfg_local_def env_ok_def connect_def
  fire_def getConnectionSettings_def establishConnection_def build_creds_def called_def info_def
  waitForReady_done_def close_def disconnect_def unsubscribe_def onBeforeDisconnect_resume_def
  onAfterConnect_def delay_elapsed_def is_def subscribe_override_def subscribe_def
  open_stream_def attach_end_def new_call_def stream_status_def stream_end_def on_status_def
  on_end_def resolve_def cancelSubscription_def CANCELLED_def OK_def Let_def
  AList.update.simps AList.delete_eq

lemma run_Nil [simp]: "run [] s = s"
  by (simp add: run_def)

lemma run_Cons [simp]: "run (e # evs) s = run evs (step e s)"
  by (simp add: run_def)

lemma on_status_frame [simp]:
  "fsm_state (on_status code l s) = fsm_state s" "fsm_pending (on_status code l s) = fsm_pending s"
  "subscribe_count (on_status code l s) = subscribe_count s" "calls (on_status code l s) = calls s"
  "next_promise (on_status code l s) = next_promise s" "next_call (on_status code l s) = next_call s"
  "timers (on_status code l s) = timers s" "clients (on_status code l s) = clients s"
  "service (on_status code l s) = service s" "stream_names (on_status code l s) = stream_names s"
  by (simp_all add: on_status_def resolve_def info_def)

lemma fold_on_status_frame [simp]:
  "fsm_state (fold (on_status code) ls s) = fsm_state s"
  "fsm_pending (fold (on_status code) ls s) = fsm_pending s"
  "subscribe_count (fold (on_status code) ls s) = subscribe_count s"
  "calls (fold (on_status code) ls s) = calls s"
  "next_promise (fold (on_status code) ls s) = next_promise s"
  "next_call (fold (on_status code) ls s) = next_call s"
  "timers (fold (on_status code) ls s) = timers s"
  "clients (fold (on_status code) ls s) = clients s"
  "service (fold (on_status code) ls s) = service s"
  "stream_names (fold (on_status code) ls s) = stream_names s"
  by (induction ls arbitrary: s) simp_all

lemma on_status_keys:
  "fst ` set (subscriptions (on_status code l s)) \<subseteq> fst ` set (subscriptions s)"
  using dom_delete_subset[of "fst l" "subscriptions s"]
  by (simp add: on_status_def resolve_def info_def)

lemma fold_on_status_keys:
  "fst ` set (subscriptions (fold (on_status code) ls s)) \<subseteq> fst ` set (subscriptions s)"
proof (induction ls arbitrary: s)
  case Nil
  then show ?case by simp
next
  case (Cons l ls)
  have "fst ` set (subscriptions (fold (on_status code) ls (on_status code l s)))
          \<subseteq> fst ` set (subscriptions (on_status code l s))"
    by (rule Cons.IH)
  with on_status_keys[of code l s] show ?case by auto
qed

lemma on_end_frame [simp]:
  "fsm_state (on_end k s) = fsm_state s" "fsm_pending (on_end k s) = fsm_pending s"
  "subscribe_count (on_end k s) = subscribe_count s" "calls (on_end k s) = calls s"
  "next_promise (on_end k s) = next_promise s" "next_call (on_end k s) = next_call s"
  "timers (on_end k s) = timers s" "clients (on_end k s) = clients s"
  "service (on_end k s) = service s" "stream_names (on_end k s) = stream_names s"
  "promises (on_end k s) = promises s"
  by (simp_all add: on_end_def info_def)

lemma fold_on_end_frame [simp]:
  "fsm_state (fold on_end ks s) = fsm_state s"
  "fsm_pending (fold on_end ks s) = fsm_pending s"
  "subscribe_count (fold on_end ks s) = subscribe_count s"
  "calls (fold on_end ks s) = calls s"
  "next_promise (fold on_end ks s) = next_promise s"
  "next_call (fold on_end ks s) = next_call s"
  "timers (fold on_end ks s) = timers s"
  "clients (fold on_end ks s) = clients s"
  "service (fold on_end ks s) = service s"
  "stream_names (fold on_end ks s) = stream_names s"
  "promises (fold on_end ks s) = promises s"
  by (induction ks arbitrary: s) simp_all

lemma fold_on_end_closed:
  "fold on_end ks s =
     s\<lparr>grpcLog := grpcLog s @ map SubscriptionEnded ks,
       subscriptions := fold AList.delete ks (subscriptions s)\<rparr>"
  by (induction ks arbitrary: s) (simp_all add: on_end_def info_def)

lemma fold_delete_keys:
  "fst ` set (fold AList.delete ks al) \<subseteq> fst ` set al"
proof (induction ks arbitrary: al)
  case Nil
  then show ?case by simp
next
  case (Cons k ks)
  have "fst ` set (fold AList.delete ks (AList.delete k al)) \<subseteq> fst ` set (AList.delete k al)"
    by (rule Cons.IH)
  with dom_delete_subset[of k al] show ?case by auto
qed

lemma resume_frame [simp]:
  "subscriptions (snd (onBeforeDisconnect_resume ps s)) = subscriptions s"
  "promises (snd (onBeforeDisconnect_resume ps s)) = promises s"
  "calls (snd (onBeforeDisconnect_resume ps s)) = calls s"
  "next_promise (snd (onBeforeDisconnect_resume ps s)) = next_promise s"
  "next_call (snd (onBeforeDisconnect_resume ps s)) = next_call s"
  "subscribe_count (snd (onBeforeDisconnect_resume ps s)) = subscribe_count s"
  "grpcLog (snd (onBeforeDisconnect_resume ps s)) = grpcLog s"
  "timers (snd (onBeforeDisconnect_resume ps s)) = timers s"
  "stream_names (snd (onBeforeDisconnect_resume ps s)) = stream_names s"
  by (simp_all add: onBeforeDisconnect_resume_def split: promise.splits)

lemma fold_on_status_keys':
  "keys (fold (on_status code) ls s) \<subseteq> keys s"
  unfolding keys_def by (rule fold_on_status_keys)

lemma on_status_promises:
  "promises (on_status code l s) =
     (if code = CANCELLED \<and> promises s (snd l) = Pending
      then (promises s)(snd l := Resolved) else promises s)"
  by (simp add: on_status_def resolve_def info_def)

lemma on_status_subscriptions:
  "subscriptions (on_status code l s) =
     (if code = CANCELLED then AList.delete (fst l) (subscriptions s) else subscriptions s)"
  by (simp add: on_status_def resolve_def info_def)

lemma fold_on_status_other [simp]:
  "code \<noteq> CANCELLED \<Longrightarrow> fold (on_status code) ls s = s"
  by (induction ls) (simp_all add: on_status_def)

lemma fold_on_status_changes:
  assumes "promises (fold (on_status code) ls s) q \<noteq> promises s q"
  shows "code = CANCELLED \<and> promises s q = Pending \<and>
         promises (fold (on_status code) ls s) q = Resolved \<and>
         (\<exists>k. (k, q) \<in> set ls \<and> k \<notin> keys (fold (on_status code) ls s))"
  using assms
proof (induction ls arbitrary: s)
  case Nil
  then show ?case by simp
next
  case (Cons l ls)
  let ?s1 = "on_status code l s"
  let ?s2 = "fold (on_status code) ls ?s1"
  show ?case
  proof (cases "promises ?s2 q = promises ?s1 q")
    case True
    with Cons.prems have ch: "promises ?s1 q \<noteq> promises s q" by simp
    then have c: "code = CANCELLED" and q: "q = snd l" and p: "promises s q = Pending"
      by (auto simp: on_status_promises split: if_splits)
    then have r: "promises ?s1 q = Resolved"
      by (simp add: on_status_promises)
    have "fst l \<notin> keys ?s1"
      using c delete_notin_dom[of "fst l" "subscriptions s"]
      by (simp add: keys_def on_status_subscriptions)
    with fold_on_status_keys'[of code ls ?s1] have "fst l \<notin> keys ?s2" by blast
    moreover have "(fst l, q) \<in> set (l # ls)" using q by simp
    ultimately show ?thesis using c p r True by auto
  next
    case False
    from Cons.IH[OF False] have c: "code = CANCELLED" and p1: "promises ?s1 q = Pending"
      and r: "promises ?s2 q = Resolved"
      and k: "\<exists>k. (k, q) \<in> set ls \<and> k \<notin> keys ?s2"
      by blast+
    from p1 have "promises s q = Pending"
      by (auto simp: on_status_promises split: if_splits)
    with c r k show ?thesis by auto
  qed
qed

lemma fold_on_status_deletes:
  "(k, q) \<in> set ls \<Longrightarrow> k \<notin> keys (fold (on_status CANCELLED) ls s)"
proof (induction ls arbitrary: s)
  case Nil
  then show ?case by simp
next
  case (Cons l ls)
  let ?s1 = "on_status CANCELLED l s"
  show ?case
  proof (cases "l = (k, q)")
    case True
    then have "k \<notin> keys ?s1"
      using delete_notin_dom[of k "subscriptions s"]
      by (simp add: keys_def on_status_subscriptions)
    with fold_on_status_keys'[of CANCELLED ls ?s1] show ?thesis by auto
  next
    case False
    with Cons.prems have "(k, q) \<in> set ls" by simp
    from Cons.IH[OF this] show ?thesis by simp
  qed
qed

lemma fold_on_status_resolves:
  "(k, q) \<in> set ls \<Longrightarrow> promises s q = Pending \<Longrightarrow>
   promises (fold (on_status CANCELLED) ls s) q = Resolved"
proof (induction ls arbitrary: s)
  case Nil
  then show ?case by simp
next
  case (Cons l ls)
  let ?s1 = "on_status CANCELLED l s"
  show ?case
  proof (cases "snd l = q")
    case True
    then have r1: "promises ?s1 q = Resolved"
      using Cons.prems(2) by (simp add: on_status_promises)
    then show ?thesis
      using fold_on_status_changes[of CANCELLED ls ?s1 q] by auto
  next
    case False
    then have "promises ?s1 q = Pending" and "(k, q) \<in> set ls"
      using Cons.prems by (auto simp: on_status_promises)
    from Cons.IH[OF this(2,1)] show ?thesis by simp
  qed
qed

lemma stream_status_fold:
  "promises (stream_status c code s) = promises (fold (on_status code) (status_listeners (calls s c)) s)"
  "subscriptions (stream_status c code s) =
     subscriptions (fold (on_status code) (status_listeners (calls s c)) s)"
  by (simp_all add: stream_status_def Let_def split: in_flight.splits)

lemma attach_end_frame [simp]:
  "subscriptions (attach_end k s) = subscriptions s" "grpcLog (attach_end k s) = grpcLog s"
  by (simp_all add: attach_end_def split: option.splits)

lemma attach_end_calls:
  "calls (attach_end k s) c =
     (if map_of (subscriptions s) k = Some c
      then (calls s c)\<lparr>end_listeners := end_listeners (calls s c) @ [k]\<rparr> else calls s c)"
  by (simp add: attach_end_def split: option.splits)

lemma fold_attach_end_frame [simp]:
  "subscriptions (fold attach_end ks s) = subscriptions s"
  "grpcLog (fold attach_end ks s) = grpcLog s"
  by (induction ks arbitrary: s) simp_all

lemma fold_attach_end_listeners:
  "end_listeners (calls (fold attach_end ks s) c) =
     end_listeners (calls s c) @ filter (\<lambda>k. map_of (subscriptions s) k = Some c) ks"
  by (induction ks arbitrary: s) (simp_all add: attach_end_calls)

subsection \<open>What a cancellation request changes\<close>

lemma cancelSubscription_frame:
  assumes "cancelSubscription key s = (p, s')"
  shows "p = next_promise s" and "next_promise s' = Suc (next_promise s)"
    and "subscriptions s' = subscriptions s" and "fsm_state s' = fsm_state s"
    and "fsm_pending s' = fsm_pending s" and "subscribe_count s' = subscribe_count s"
    and "next_call s' = next_call s" and "timers s' = timers s"
    and "stream_names s' = stream_names s"
    and "\<And>q. q \<noteq> next_promise s \<Longrightarrow> promises s' q = promises s q"
    and "promises s' (next_promise s) =
           (if map_of (subscriptions s) key = None then Rejected TypeError else Pending)"
    and "\<And>c. status_listeners (calls s' c) =
           status_listeners (calls s c) @
             (if map_of (subscriptions s) key = Some c then [(key, next_promise s)] else [])"
  using assms
  by (auto simp: cancelSubscription_def info_def Let_def split: option.splits)

lemma cancel_each_misc:
  "cancel_each ks s = (ps, s') \<Longrightarrow>
   length ps = length ks \<and> distinct ps \<and>
   (\<forall>p \<in> set ps. next_promise s \<le> p \<and> p < next_promise s') \<and>
   next_promise s \<le> next_promise s' \<and>
   subscriptions s' = subscriptions s \<and> fsm_state s' = fsm_state s \<and>
   fsm_pending s' = fsm_pending s \<and> subscribe_count s' = subscribe_count s \<and>
   next_call s' = next_call s \<and> timers s' = timers s \<and> stream_names s' = stream_names s"
proof (induction ks arbitrary: s ps s')
  case Nil
  then show ?case by simp
next
  case (Cons k ks)
  obtain p s1 where c1: "cancelSubscription k s = (p, s1)"
    by (cases "cancelSubscription k s")
  obtain ps1 s2 where c2: "cancel_each ks s1 = (ps1, s2)"
    by (cases "cancel_each ks s1")
  from Cons.prems c1 c2 have e: "ps = p # ps1" "s' = s2" by simp_all
  note f = cancelSubscription_frame[OF c1]
  from Cons.IH[OF c2] f e show ?case
    by auto
qed

lemma cancel_each_promises:
  "cancel_each ks s = (ps, s') \<Longrightarrow> q < next_promise s \<Longrightarrow> promises s' q = promises s q"
proof (induction ks arbitrary: s ps s')
  case Nil
  then show ?case by simp
next
  case (Cons k ks)
  obtain p s1 where c1: "cancelSubscription k s = (p, s1)"
    by (cases "cancelSubscription k s")
  obtain ps1 s2 where c2: "cancel_each ks s1 = (ps1, s2)"
    by (cases "cancel_each ks s1")
  from Cons.prems c1 c2 have e: "s' = s2" by simp
  note f = cancelSubscription_frame[OF c1]
  have "promises s2 q = promises s1 q"
    using Cons.IH[OF c2] Cons.prems(2) f(2) by simp
  also have "\<dots> = promises s q"
    using f(10)[of q] Cons.prems(2) by simp
  finally show ?case using e by simp
qed

lemma cancel_each_listeners:
  "cancel_each ks s = (ps, s') \<Longrightarrow> l \<in> set (status_listeners (calls s' c)) \<Longrightarrow>
   l \<in> set (status_listeners (calls s c)) \<or>
   (l \<in> set (zip ks ps) \<and> map_of (subscriptions s) (fst l) = Some c)"
proof (induction ks arbitrary: s ps s')
  case Nil
  then show ?case by simp
next
  case (Cons k ks)
  obtain p s1 where c1: "cancelSubscription k s = (p, s1)"
    by (cases "cancelSubscription k s")
  obtain ps1 s2 where c2: "cancel_each ks s1 = (ps1, s2)"
    by (cases "cancel_each ks s1")
  from Cons.prems c1 c2 have e: "ps = p # ps1" "s' = s2" by simp_all
  note f = cancelSubscription_frame[OF c1]
  from Cons.IH[OF c2] Cons.prems(2) e
  have "l \<in> set (status_listeners (calls s1 c)) \<or>
        (l \<in> set (zip ks ps1) \<and> map_of (subscriptions s1) (fst l) = Some c)"
    by simp
  then show ?case
    using f(1,3) f(12)[of c] e by (auto split: if_splits)
qed

lemma cancel_each_listeners_mono:
  "cancel_each ks s = (ps, s') \<Longrightarrow> l \<in> set (status_listeners (calls s c)) \<Longrightarrow>
   l \<in> set (status_listeners (calls s' c))"
proof (induction ks arbitrary: s ps s')
  case Nil
  then show ?case by simp
next
  case (Cons k ks)
  obtain p s1 where c1: "cancelSubscription k s = (p, s1)"
    by (cases "cancelSubscription k s")
  obtain ps1 s2 where c2: "cancel_each ks s1 = (ps1, s2)"
    by (cases "cancel_each ks s1")
  from Cons.prems c1 c2 have e: "s' = s2" by simp
  note f = cancelSubscription_frame[OF c1]
  have "l \<in> set (status_listeners (calls s1 c))"
    using Cons.prems(2) f(12)[of c] by simp
  from Cons.IH[OF c2 this] e show ?case by simp
qed

lemma cancel_each_registered:
  "cancel_each ks s = (ps, s') \<Longrightarrow> k \<in> set ks \<Longrightarrow> map_of (subscriptions s) k = Some c \<Longrightarrow>
   \<exists>p \<in> set ps. (k, p) \<in> set (status_listeners (calls s' c)) \<and> promises s' p = Pending"
proof (induction ks arbitrary: s ps s')
  case Nil
  then show ?case by simp
next
  case (Cons k0 ks)
  obtain p s1 where c1: "cancelSubscription k0 s = (p, s1)"
    by (cases "cancelSubscription k0 s")
  obtain ps1 s2 where c2: "cancel_each ks s1 = (ps1, s2)"
    by (cases "cancel_each ks s1")
  from Cons.prems c1 c2 have e: "ps = p # ps1" "s' = s2" by simp_all
  note f = cancelSubscription_frame[OF c1]
  show ?case
  proof (cases "k = k0")
    case True
    have "(k, p) \<in> set (status_listeners (calls s1 c))"
      using True Cons.prems(3) f(1) f(12)[of c] by simp
    then have "(k, p) \<in> set (status_listeners (calls s2 c))"
      by (rule cancel_each_listeners_mono[OF c2])
    moreover have "promises s2 p = promises s1 p"
      using cancel_each_promises[OF c2, of p] f(1,2) by simp
    moreover have "promises s1 p = Pending"
      using True Cons.prems(3) f(1) f(11) by simp
    ultimately show ?thesis using e by simp
  next
    case False
    with Cons.prems have "k \<in> set ks" by simp
    from Cons.IH[OF c2 this] Cons.prems(3) f(3) e show ?thesis by auto
  qed
qed

lemma cancel_each_unresolved:
  assumes "cancel_each ks s = (ps, s')" and "p \<in> set ps"
  shows "promises s' p \<noteq> Resolved"
  using assms
proof (induction ks arbitrary: s ps s')
  case Nil
  then show ?case by simp
next
  case (Cons k ks)
  obtain p0 s1 where c1: "cancelSubscription k s = (p0, s1)"
    by (cases "cancelSubscription k s")
  obtain ps1 s2 where c2: "cancel_each ks s1 = (ps1, s2)"
    by (cases "cancel_each ks s1")
  from Cons.prems c1 c2 have e: "ps = p0 # ps1" "s' = s2" by simp_all
  note f = cancelSubscription_frame[OF c1]
  show ?case
  proof (cases "p = p0")
    case True
    have "promises s2 p = promises s1 p"
      using cancel_each_promises[OF c2, of p] True f(1,2) by simp
    moreover have "promises s1 p \<noteq> Resolved"
      using True f(1) f(11) by simp
    ultimately show ?thesis using e by simp
  next
    case False
    with Cons.prems e have "p \<in> set ps1" by simp
    from Cons.IH[OF c2 this] e show ?thesis by simp
  qed
qed

lemma cancel_each_pending:
  "cancel_each ks s = (ps, s') \<Longrightarrow> \<forall>k \<in> set ks. map_of (subscriptions s) k \<noteq> None \<Longrightarrow>
   p \<in> set ps \<Longrightarrow> promises s' p = Pending"
proof (induction ks arbitrary: s ps s')
  case Nil
  then show ?case by simp
next
  case (Cons k ks)
  obtain p0 s1 where c1: "cancelSubscription k s = (p0, s1)"
    by (cases "cancelSubscription k s")
  obtain ps1 s2 where c2: "cancel_each ks s1 = (ps1, s2)"
    by (cases "cancel_each ks s1")
  from Cons.prems c1 c2 have e: "ps = p0 # ps1" "s' = s2" by simp_all
  note f = cancelSubscription_frame[OF c1]
  show ?case
  proof (cases "p = p0")
    case True
    have "promises s2 p = promises s1 p"
      using cancel_each_promises[OF c2, of p] True f(1,2) by simp
    moreover have "promises s1 p = Pending"
      using True f(1) f(11) Cons.prems(2) by simp
    ultimately show ?thesis using e by simp
  next
    case False
    with Cons.prems e have "p \<in> set ps1" by simp
    moreover have "\<forall>k \<in> set ks. map_of (subscriptions s1) k \<noteq> None"
      using Cons.prems(2) f(3) by simp
    ultimately show ?thesis using Cons.IH[OF c2] e by simp
  qed
qed

lemma cancel_each_handles:
  "cancel_each ks s = (ps, s') \<Longrightarrow> clients s' = clients s \<and> service s' = service s"
proof (induction ks arbitrary: s ps s')
  case Nil
  then show ?case by simp
next
  case (Cons k ks)
  obtain p s1 where c1: "cancelSubscription k s = (p, s1)"
    by (cases "cancelSubscription k s")
  obtain ps1 s2 where c2: "cancel_each ks s1 = (ps1, s2)"
    by (cases "cancel_each ks s1")
  from Cons.prems c1 c2 have e: "s' = s2" by simp
  from c1 have "clients s1 = clients s \<and> service s1 = service s"
    by (auto simp: cancelSubscription_def info_def Let_def split: option.splits)
  with Cons.IH[OF c2] e show ?case by simp
qed

lemma unsubscribe_cancel_each:
  "unsubscribe s =
     cancel_each (map fst (subscriptions s)) (info (UnsubscribingAll (map fst (subscriptions s))) s)"
  by (simp add: unsubscribe_def Let_def)

subsection \<open>What one event changes in the stores\<close>

lemma build_creds_store:
  "build_creds opts env s = (r, s') \<Longrightarrow>
   promises s' = promises s \<and> calls s' = calls s \<and> next_promise s' = next_promise s \<and>
   next_call s' = next_call s \<and> subscriptions s' = subscriptions s"
  by (auto simp: build_creds_def called_def Let_def split: sum.splits if_splits)

lemma establishConnection_store:
  "establishConnection opts env s = (r, s') \<Longrightarrow>
   promises s' = promises s \<and> calls s' = calls s \<and> next_promise s' = next_promise s \<and>
   next_call s' = next_call s \<and> subscriptions s' = subscriptions s"
  by (auto simp: establishConnection_def called_def info_def Let_def
      split: sum.splits option.splits if_splits prod.splits
      dest!: build_creds_store)

lemma connect_store:
  "promises (snd (connect env s)) = promises s \<and> calls (snd (connect env s)) = calls s \<and>
   next_promise (snd (connect env s)) = next_promise s \<and>
   next_call (snd (connect env s)) = next_call s \<and>
   subscriptions (snd (connect env s)) = subscriptions s"
proof (cases "fire Connect s")
  case (Inl e)
  then show ?thesis by (simp add: connect_def)
next
  case (Inr to)
  let ?s0 = "info Connecting (s\<lparr>fsm_pending := AwaitReady\<rparr>)"
  obtain r s1 where est: "establishConnection (getConnectionSettings s) env ?s0 = (r, s1)"
    by (cases "establishConnection (getConnectionSettings s) env ?s0")
  from establishConnection_store[OF est] Inr est show ?thesis
    by (cases r) (simp_all add: connect_def info_def)
qed

lemma waitForReady_done_store:
  "promises (snd (waitForReady_done r s)) = promises s \<and>
   calls (snd (waitForReady_done r s)) = calls s \<and>
   next_promise (snd (waitForReady_done r s)) = next_promise s \<and>
   next_call (snd (waitForReady_done r s)) = next_call s \<and>
   subscriptions (snd (waitForReady_done r s)) = subscriptions s"
  by (simp add: waitForReady_done_def onAfterConnect_def info_def split: sum.splits)

lemma open_stream_store [simp]:
  "promises (open_stream n s) = promises s" "next_promise (open_stream n s) = next_promise s"
  "next_call (open_stream n s) = Suc (next_call s)"
  "status_listeners (calls (open_stream n s) c) =
     (if c = next_call s then [] else status_listeners (calls s c))"
  by (simp_all add: open_stream_def new_call_def)

lemma fold_open_stream_store:
  "promises (fold open_stream ns s) = promises s \<and>
   next_promise (fold open_stream ns s) = next_promise s \<and>
   next_call s \<le> next_call (fold open_stream ns s) \<and>
   (\<forall>c. set (status_listeners (calls (fold open_stream ns s) c)) \<subseteq> set (status_listeners (calls s c))) \<and>
   (\<forall>c < next_call s. status_listeners (calls (fold open_stream ns s) c) = status_listeners (calls s c))"
proof (induction ns arbitrary: s)
  case Nil
  then show ?case by simp
next
  case (Cons n ns)
  let ?s1 = "open_stream n s"
  let ?s2 = "fold open_stream ns ?s1"
  note ih = Cons.IH[of ?s1]
  have a: "promises ?s2 = promises s" "next_promise ?s2 = next_promise s"
    using ih by simp_all
  have b: "next_call s \<le> next_call ?s2"
    using ih by simp
  have c: "set (status_listeners (calls ?s2 c)) \<subseteq> set (status_listeners (calls s c))" for c
  proof -
    have "set (status_listeners (calls ?s2 c)) \<subseteq> set (status_listeners (calls ?s1 c))"
      using ih by blast
    also have "\<dots> \<subseteq> set (status_listeners (calls s c))"
      by simp
    finally show ?thesis .
  qed
  have d: "status_listeners (calls ?s2 c) = status_listeners (calls s c)" if "c < next_call s" for c
  proof -
    from that have "c < next_call ?s1" by simp
    with ih have "status_listeners (calls ?s2 c) = status_listeners (calls ?s1 c)" by blast
    also have "\<dots> = status_listeners (calls s c)"
      using that by simp
    finally show ?thesis .
  qed
  from a b c d show ?case by simp
qed

lemma attach_end_store [simp]:
  "promises (attach_end k s) = promises s" "next_promise (attach_end k s) = next_promise s"
  "next_call (attach_end k s) = next_call s"
  "status_listeners (calls (attach_end k s) c) = status_listeners (calls s c)"
  by (simp_all add: attach_end_def split: option.splits)

lemma fold_attach_end_store [simp]:
  "promises (fold attach_end ks s) = promises s"
  "next_promise (fold attach_end ks s) = next_promise s"
  "next_call (fold attach_end ks s) = next_call s"
  "status_listeners (calls (fold attach_end ks s) c) = status_listeners (calls s c)"
  by (induction ks arbitrary: s) simp_all

lemma subscribe_override_store:
  "promises (subscribe_override s) = promises s \<and>
   next_promise (subscribe_override s) = next_promise s \<and>
   next_call s \<le> next_call (subscribe_override s) \<and>
   (\<forall>c. set (status_listeners (calls (subscribe_override s) c)) \<subseteq> set (status_listeners (calls s c))) \<and>
   (\<forall>c < next_call s. status_listeners (calls (subscribe_override s) c) = status_listeners (calls s c))"
proof -
  show ?thesis
    using fold_open_stream_store[of "stream_names s" s]
    by (simp add: subscribe_override_def subscribe_def)
qed

lemma delay_elapsed_store:
  "promises (delay_elapsed s) = promises s \<and>
   next_promise (delay_elapsed s) = next_promise s \<and>
   next_call s \<le> next_call (delay_elapsed s) \<and>
   (\<forall>c. set (status_listeners (calls (delay_elapsed s) c)) \<subseteq> set (status_listeners (calls s c))) \<and>
   (\<forall>c < next_call s. status_listeners (calls (delay_elapsed s) c) = status_listeners (calls s c))"
proof (cases "timers s")
  case Nil
  then show ?thesis by (simp add: delay_elapsed_def)
next
  case (Cons d ds)
  show ?thesis
    using subscribe_override_store[of "s\<lparr>timers := ds\<rparr>"] Cons
    by (simp add: delay_elapsed_def Let_def)
qed

lemma disconnect_store:
  "next_promise s \<le> next_promise (snd (disconnect s)) \<and>
   next_call (snd (disconnect s)) = next_call s \<and>
   subscriptions (snd (disconnect s)) = subscriptions s \<and>
   (\<forall>c l. l \<in> set (status_listeners (calls (snd (disconnect s)) c)) \<longrightarrow>
      l \<in> set (status_listeners (calls s c)) \<or>
      (next_promise s \<le> snd l \<and> snd l < next_promise (snd (disconnect s)))) \<and>
   (\<forall>c l. l \<in> set (status_listeners (calls s c)) \<longrightarrow>
      l \<in> set (status_listeners (calls (snd (disconnect s)) c))) \<and>
   (\<forall>q < next_promise s. promises (snd (disconnect s)) q = promises s q)"
proof (cases "fire Disconnect s")
  case (Inl e)
  then show ?thesis by (simp add: disconnect_def)
next
  case (Inr to)
  let ?s0 = "info (UnsubscribingAll (map fst (subscriptions s)))
               (info Disconnecting (s\<lparr>fsm_pending := AwaitUnsubscribe []\<rparr>))"
  obtain ps s1 where ce: "cancel_each (map fst (subscriptions s)) ?s0 = (ps, s1)"
    by (cases "cancel_each (map fst (subscriptions s)) ?s0")
  have d: "snd (disconnect s) = snd (onBeforeDisconnect_resume ps s1)"
    using Inr ce by (simp add: disconnect_def unsubscribe_def info_def split: prod.splits)
  have s0: "next_promise ?s0 = next_promise s" "calls ?s0 = calls s" "promises ?s0 = promises s"
    "subscriptions ?s0 = subscriptions s" "next_call ?s0 = next_call s"
    by (simp_all add: info_def)
  note m = cancel_each_misc[OF ce]
  have l: "l \<in> set (status_listeners (calls s c)) \<or>
           (next_promise s \<le> snd l \<and> snd l < next_promise s1)"
    if "l \<in> set (status_listeners (calls s1 c))" for c l
  proof -
    from cancel_each_listeners[OF ce that]
    have "l \<in> set (status_listeners (calls s c)) \<or> l \<in> set (zip (map fst (subscriptions s)) ps)"
      by (auto simp: s0)
    moreover have "snd l \<in> set ps" if "l \<in> set (zip (map fst (subscriptions s)) ps)"
      using that set_zip_rightD[of "fst l" "snd l" "map fst (subscriptions s)" ps] by simp
    ultimately show ?thesis using m by (auto simp: s0)
  qed
  have mono: "l \<in> set (status_listeners (calls s1 c))"
    if "l \<in> set (status_listeners (calls s c))" for c l
    using cancel_each_listeners_mono[OF ce, of l c] that by (simp add: s0)
  have pr: "promises s1 q = promises s q" if "q < next_promise s" for q
    using cancel_each_promises[OF ce, of q] that by (simp add: s0)
  show ?thesis
    unfolding d using m l mono pr by (simp add: s0)
qed

lemma stream_status_store:
  "next_promise (stream_status c code s) = next_promise s \<and>
   next_call (stream_status c code s) = next_call s \<and>
   calls (stream_status c code s) = calls s \<and>
   keys (stream_status c code s) \<subseteq> keys s \<and>
   (\<forall>q. promises (stream_status c code s) q \<noteq> promises s q \<longrightarrow>
      code = CANCELLED \<and> promises s q = Pending \<and> promises (stream_status c code s) q = Resolved \<and>
      (\<exists>k. (k, q) \<in> set (status_listeners (calls s c)) \<and> k \<notin> keys (stream_status c code s)))"
proof -
  let ?s1 = "fold (on_status code) (status_listeners (calls s c)) s"
  have e: "promises (stream_status c code s) = promises ?s1"
    "subscriptions (stream_status c code s) = subscriptions ?s1"
    "next_promise (stream_status c code s) = next_promise s"
    "next_call (stream_status c code s) = next_call s"
    "calls (stream_status c code s) = calls s"
    by (simp_all add: stream_status_def Let_def split: in_flight.splits)
  have k: "keys (stream_status c code s) = keys ?s1"
    by (simp add: keys_def e)
  show ?thesis
    using fold_on_status_changes[of code "status_listeners (calls s c)" s]
      fold_on_status_keys'[of code "status_listeners (calls s c)" s]
    by (simp add: e k)
qed

lemma stream_end_store:
  "next_promise (stream_end c s) = next_promise s \<and> next_call (stream_end c s) = next_call s \<and>
   calls (stream_end c s) = calls s \<and> promises (stream_end c s) = promises s \<and>
   keys (stream_end c s) \<subseteq> keys s"
  using fold_delete_keys[of "end_listeners (calls s c)" "subscriptions s"]
  by (simp add: stream_end_def keys_def fold_on_end_closed)

lemma step_store:
  "next_promise s \<le> next_promise (step e s) \<and> next_call s \<le> next_call (step e s) \<and>
   (\<forall>c l. l \<in> set (status_listeners (calls (step e s) c)) \<longrightarrow>
      l \<in> set (status_listeners (calls s c)) \<or>
      (next_promise s \<le> snd l \<and> snd l < next_promise (step e s))) \<and>
   (\<forall>c l. c < next_call s \<longrightarrow> l \<in> set (status_listeners (calls s c)) \<longrightarrow>
      l \<in> set (status_listeners (calls (step e s) c))) \<and>
   (\<forall>q < next_promise s. promises (step e s) q \<noteq> promises s q \<longrightarrow>
      promises s q = Pending \<and> promises (step e s) q = Resolved \<and>
      (\<exists>c k. e = StreamStatus c CANCELLED \<and> (k, q) \<in> set (status_listeners (calls s c)) \<and>
         k \<notin> keys (step e s))) \<and>
   (e \<noteq> DelayElapsed \<longrightarrow> keys (step e s) \<subseteq> keys s)"
proof (cases e)
  case (CallConnect env)
  then show ?thesis using connect_store[of env s] by (simp add: keys_def)
next
  case (ProbeDone r)
  then show ?thesis using waitForReady_done_store[of r s] by (simp add: keys_def)
next
  case CallDisconnect
  then show ?thesis using disconnect_store[of s] by (simp add: keys_def)
next
  case DelayElapsed
  then show ?thesis using delay_elapsed_store[of s] by auto
next
  case (StreamStatus c code)
  then show ?thesis using stream_status_store[of c code s] by auto
next
  case (StreamEnd c)
  then show ?thesis using stream_end_store[of c s] by simp
qed

lemma fresh_promises_step:
  assumes "fresh_promises s"
  shows "fresh_promises (step e s)"
  unfolding fresh_promises_def
proof (intro allI ballI)
  fix c l assume "l \<in> set (status_listeners (calls (step e s) c))"
  with step_store[of s e]
  have "l \<in> set (status_listeners (calls s c)) \<or> snd l < next_promise (step e s)"
    by blast
  moreover have "snd l < next_promise (step e s)" if "l \<in> set (status_listeners (calls s c))"
  proof -
    from assms that have "snd l < next_promise s"
      by (auto simp: fresh_promises_def)
    with step_store[of s e] show ?thesis by simp
  qed
  ultimately show "snd l < next_promise (step e s)" by blast
qed

lemma fresh_promises_run:
  "fresh_promises s \<Longrightarrow> fresh_promises (run evs s)"
  by (induction evs arbitrary: s) (simp_all add: fresh_promises_step)

subsection \<open>The settling delay\<close>

lemma build_creds_count:
  "build_creds opts env s = (r, s') \<Longrightarrow>
   fsm_state s' = fsm_state s \<and> fsm_pending s' = fsm_pending s \<and>
   subscribe_count s' = subscribe_count s"
  by (auto simp: build_creds_def called_def Let_def split: sum.splits if_splits)

lemma establishConnection_fsm:
  "establishConnection opts env s = (r, s') \<Longrightarrow>
   fsm_state s' = fsm_state s \<and> fsm_pending s' = fsm_pending s \<and>
   subscribe_count s' = subscribe_count s"
  by (auto simp: establishConnection_def called_def info_def Let_def
      split: sum.splits option.splits if_splits prod.splits dest!: build_creds_count)

lemma connect_while_ready:
  assumes "fsm_state s = Ready"
  shows "fsm_state (snd (connect env s)) = Ready \<and>
         (fsm_pending (snd (connect env s)) = fsm_pending s \<or>
          fsm_pending (snd (connect env s)) = NoTransition \<or>
          fsm_pending (snd (connect env s)) = AwaitReady) \<and>
         subscribe_count (snd (connect env s)) = subscribe_count s"
proof (cases "fire Connect s")
  case (Inl e)
  with assms show ?thesis by (simp add: connect_def)
next
  case (Inr to)
  let ?s0 = "info Connecting (s\<lparr>fsm_pending := AwaitReady\<rparr>)"
  obtain r s1 where est: "establishConnection (getConnectionSettings s) env ?s0 = (r, s1)"
    by (cases "establishConnection (getConnectionSettings s) env ?s0")
  from establishConnection_fsm[OF est] Inr est assms show ?thesis
    by (cases r) (simp_all add: connect_def info_def)
qed

lemma step_while_not_connected:
  assumes "fsm_state s = Ready" and "fsm_pending s = NoTransition \<or> fsm_pending s = AwaitReady"
    and "\<not> completes_connect e"
  shows "fsm_state (step e s) = Ready \<and>
         (fsm_pending (step e s) = NoTransition \<or> fsm_pending (step e s) = AwaitReady) \<and>
         subscribe_count (step e s) = subscribe_count s \<and>
         fst ` set (subscriptions (step e s)) \<subseteq> fst ` set (subscriptions s)"
proof (cases e)
  case (CallConnect env)
  with assms connect_while_ready[of s env] connect_store[of env s] show ?thesis by auto
next
  case (ProbeDone r)
  with assms show ?thesis
    by (cases r) (auto simp: waitForReady_done_def info_def)
next
  case CallDisconnect
  with assms show ?thesis by (simp add: disconnect_def fire_def)
next
  case DelayElapsed
  with assms show ?thesis by (simp add: delay_elapsed_def is_def split: list.splits)
next
  case (StreamStatus c code)
  have "subscriptions (stream_status c code s) =
          subscriptions (fold (on_status code) (status_listeners (calls s c)) s)"
    by (rule stream_status_fold(2))
  with fold_on_status_keys[of code "status_listeners (calls s c)" s]
  have "fst ` set (subscriptions (stream_status c code s)) \<subseteq> fst ` set (subscriptions s)"
    by simp
  moreover from assms(2) have "stream_status c code s =
      fold (on_status code) (status_listeners (calls s c)) s"
    by (auto simp: stream_status_def Let_def)
  ultimately show ?thesis using StreamStatus assms by auto
next
  case (StreamEnd c)
  with assms show ?thesis by (simp add: stream_end_def fold_on_end_closed fold_delete_keys)
qed

lemma disconnect_completed:
  "disconnect s = (Inr Resolved, s') \<Longrightarrow> fsm_state s' = Ready \<and> fsm_pending s' = NoTransition"
  by (auto simp: disconnect_def onBeforeDisconnect_resume_def
      split: sum.splits prod.splits promise.splits)

text \<open>
  C4, as the code has it. A completed disconnect leaves the machine in state \<open>ready\<close> with
  no transition in flight. From there, as long as no connect completes, the machine stays
  \<open>ready\<close>, no event invokes \<open>subscribe\<close> and no name is added to the registry; in
  particular, when the settling delay of the earlier connect elapses, the check of the
  state finds the machine not connected and registration is skipped.
\<close>

theorem delay_after_disconnect:
  assumes "fsm_state s = Ready" and "fsm_pending s = NoTransition"
    and "\<forall>e \<in> set evs. \<not> completes_connect e"
  shows "fsm_state (run evs s) = Ready \<and> subscribe_count (run evs s) = subscribe_count s \<and>
         fst ` set (subscriptions (run evs s)) \<subseteq> fst ` set (subscriptions s)"
proof -
  have "fsm_state (run evs s) = Ready \<and> subscribe_count (run evs s) = subscribe_count s \<and>
        fst ` set (subscriptions (run evs s)) \<subseteq> fst ` set (subscriptions s)"
    if "fsm_state s = Ready" and "fsm_pending s = NoTransition \<or> fsm_pending s = AwaitReady"
      and "\<forall>e \<in> set evs. \<not> completes_connect e" for s
    using that
  proof (induction evs arbitrary: s)
    case Nil
    then show ?case by simp
  next
    case (Cons e evs)
    from Cons.prems have e: "\<not> completes_connect e"
      and rest: "\<forall>e \<in> set evs. \<not> completes_connect e"
      by simp_all
    note st = step_while_not_connected[OF Cons.prems(1,2) e]
    from Cons.IH[of "step e s"] st rest
    have "fsm_state (run evs (step e s)) = Ready \<and>
          subscribe_count (run evs (step e s)) = subscribe_count (step e s) \<and>
          fst ` set (subscriptions (run evs (step e s))) \<subseteq> fst ` set (subscriptions (step e s))"
      by blast
    with st show ?case by auto
  qed
  with assms show ?thesis by blast
qed

theorem delay_after_disconnect_witness:
  "fsm_state cycle_done = Ready \<and> fsm_pending cycle_done = NoTransition \<and>
   timers cycle_done = [2000] \<and>
   \<not> completes_connect (CallConnect env_ok) \<and> \<not> completes_connect DelayElapsed \<and>
   fsm_state (run [CallConnect env_ok, DelayElapsed] cycle_done) = Ready \<and>
   timers (run [CallConnect env_ok, DelayElapsed] cycle_done) = [] \<and>
   subscribe_count (run [CallConnect env_ok, DelayElapsed] cycle_done) = 0 \<and>
   subscriptions (run [CallConnect env_ok, DelayElapsed] cycle_done) = []"
proof -
  have a: "fsm_state cycle_done = Ready" and b: "fsm_pending cycle_done = NoTransition"
    and c: "timers cycle_done = [2000]" and d: "subscribe_count cycle_done = 0"
    and e: "subscriptions cycle_done = []"
    by (simp_all add: cycle_done_def run_defs)
  have f: "\<forall>e \<in> set [CallConnect env_ok, DelayElapsed]. \<not> completes_connect e"
    by simp
  have g: "timers (run [CallConnect env_ok, DelayElapsed] cycle_done) = []"
    by (simp add: cycle_done_def run_defs)
  show ?thesis
    using a b c d e f g delay_after_disconnect [OF a b f]
    by (simp del: run_Cons)
qed

text \<open>
  The claim as stated fails: after a connect and a disconnect that completes while the
  timer of that connect is still pending, a second connect completes; when the first
  delay elapses the check finds the machine connected and \<open>subscribe\<close> is invoked.
\<close>

theorem delay_after_disconnect_counterexample:
  "fsm_state cycle_done = Ready \<and> fsm_pending cycle_done = NoTransition \<and>
   timers cycle_done = [2000] \<and>
   timers (run [CallConnect env_ok, ProbeDone (Inr ())] cycle_done) = [2000, 2000] \<and>
   subscribe_count (run [CallConnect env_ok, ProbeDone (Inr ()), DelayElapsed] cycle_done) = 1 \<and>
   subscriptions (run [CallConnect env_ok, ProbeDone (Inr ()), DelayElapsed] cycle_done) =
     [(''channelgraph'', 0), (''invoices'', 1)]"
  by (simp add: cycle_done_def run_defs)

subsection \<open>The natural end of a stream\<close>

lemma distinct_singleton:
  assumes "distinct xs" and "set xs = {a}"
  shows "xs = [a]"
proof (cases xs)
  case Nil
  with assms show ?thesis by simp
next
  case (Cons x ys)
  with assms have "x = a" and "set ys \<subseteq> {a}" and "a \<notin> set ys"
    by auto
  then have "ys = []" by (cases ys) auto
  with \<open>x = a\<close> Cons show ?thesis by simp
qed

lemma one_key_per_stream:
  assumes "distinct (map fst al)" and "distinct (map snd al)" and "(key, c) \<in> set al"
  shows "filter (\<lambda>k. map_of al k = Some c) (map fst al) = [key]"
proof (rule distinct_singleton)
  show "distinct (filter (\<lambda>k. map_of al k = Some c) (map fst al))"
    using assms(1) by simp
  have inj: "inj_on snd (set al)"
    using assms(2) by (simp add: distinct_map)
  have "\<And>k. (k, c) \<in> set al \<Longrightarrow> k = key"
  proof -
    fix k assume "(k, c) \<in> set al"
    with assms(3) show "k = key"
      using inj_onD[OF inj, of "(k, c)" "(key, c)"] by simp
  qed
  then have sub: "set (filter (\<lambda>k. map_of al k = Some c) (map fst al)) \<subseteq> {key}"
    using assms(1) by (auto simp: map_of_eq_Some_iff)
  have "map_of al key = Some c"
    using assms(1,3) by simp
  moreover have "key \<in> set (map fst al)"
    using assms(3) by (force simp: image_iff)
  ultimately have "key \<in> set (filter (\<lambda>k. map_of al k = Some c) (map fst al))"
    by simp
  with sub show "set (filter (\<lambda>k. map_of al k = Some c) (map fst al)) = {key}"
    by blast
qed

text \<open>
  C8. Let every name of the registry have its own stream, none of them with an \<open>end\<close>
  listener yet, as when the streams have just been opened. After \<open>subscribe\<close> has
  attached the listeners, for every registered name, when its stream signals the end of
  the stream the entry of that name is removed from the registry and exactly one line,
  the one that reports the end of this subscription, is logged.
\<close>

theorem natural_end:
  assumes "distinct (map fst (subscriptions s))" and "distinct (map snd (subscriptions s))"
    and "\<forall>(k, c') \<in> set (subscriptions s). end_listeners (calls s c') = []"
    and "(key, c) \<in> set (subscriptions s)"
  shows "map_of (subscriptions (subscribe s)) key = Some c \<and>
         map_of (subscriptions (stream_end c (subscribe s))) key = None \<and>
         subscriptions (stream_end c (subscribe s)) = AList.delete key (subscriptions (subscribe s)) \<and>
         grpcLog (stream_end c (subscribe s)) = grpcLog (subscribe s) @ [SubscriptionEnded key]"
proof -
  have l: "end_listeners (calls (subscribe s) c) = [key]"
    using assms(3,4) one_key_per_stream[OF assms(1,2,4)]
    by (auto simp: subscribe_def fold_attach_end_listeners)
  have r: "map_of (subscriptions s) key = Some c"
    using assms(1,4) by simp
  have f: "subscriptions (subscribe s) = subscriptions s"
    by (simp add: subscribe_def)
  show ?thesis
    using r delete_notin_dom[of key "subscriptions s"]
    by (simp add: stream_end_def l on_end_def info_def f map_of_eq_None_iff)
qed

theorem natural_end_witness:
  "distinct (map fst (subscriptions streams_opened)) \<and>
   distinct (map snd (subscriptions streams_opened)) \<and>
   end_listeners (calls streams_opened 0) = [] \<and> end_listeners (calls streams_opened 1) = [] \<and>
   (''invoices'', 1) \<in> set (subscriptions streams_opened) \<and>
   map_of (subscriptions (stream_end 1 (subscribe streams_opened))) ''invoices'' = None \<and>
   subscriptions (stream_end 1 (subscribe streams_opened)) = [(''channelgraph'', 0)] \<and>
   grpcLog (stream_end 1 (subscribe streams_opened)) = [SubscriptionEnded ''invoices'']"
proof -
  have s: "subscriptions streams_opened = [(''channelgraph'', 0), (''invoices'', 1)]"
    by (simp add: streams_opened_def run_defs)
  have a: "distinct (map fst (subscriptions streams_opened))"
    and b: "distinct (map snd (subscriptions streams_opened))"
    and d: "(''invoices'', 1) \<in> set (subscriptions streams_opened)"
    by (simp_all add: s)
  have c: "\<forall>(k, c') \<in> set (subscriptions streams_opened). end_listeners (calls streams_opened c') = []"
    by (simp add: s) (simp add: streams_opened_def run_defs)
  have l: "grpcLog (subscribe streams_opened) = []"
    by (simp add: streams_opened_def run_defs)
  have f: "subscriptions (subscribe streams_opened) = subscriptions streams_opened"
    by (simp add: subscribe_def)
  show ?thesis
    using a b c d natural_end [OF a b c d]
    by (simp add: l f s AList.delete_eq)
qed

subsection \<open>Cancelling one subscription\<close>

text \<open>
  C7, as the code has it. For every name with no entry in the registry,
  \<open>_cancelSubscription\<close> does not resolve: the promise it returns is rejected with a
  \<open>TypeError\<close>. The registry and every stream are left unchanged; one line is logged.
\<close>

theorem cancel_unregistered:
  "map_of (subscriptions s) key = None \<Longrightarrow>
   (case cancelSubscription key s of
      (p, s') \<Rightarrow>
        promises s' p = Rejected TypeError \<and>
        subscriptions s' = subscriptions s \<and> calls s' = calls s \<and>
        fsm_state s' = fsm_state s \<and> fsm_pending s' = fsm_pending s \<and>
        grpcLog s' = grpcLog s @ [Unsubscribing key])"
  by (simp add: cancelSubscription_def info_def Let_def)

theorem cancel_unregistered_witness:
  "map_of (subscriptions ready_service) ''channelgraph'' = None \<and>
   (case cancelSubscription ''channelgraph'' ready_service of
      (p, s') \<Rightarrow>
        promises s' p = Rejected TypeError \<and>
        subscriptions s' = subscriptions ready_service \<and> calls s' = calls ready_service \<and>
        fsm_state s' = fsm_state ready_service \<and> fsm_pending s' = fsm_pending ready_service \<and>
        grpcLog s' = grpcLog ready_service @ [Unsubscribing ''channelgraph''])"
proof -
  have h: "map_of (subscriptions ready_service) ''channelgraph'' = None"
    by (simp add: ready_service_def GrpcService_def)
  show ?thesis
    using h cancel_unregistered [OF h] by simp
qed

text \<open>
  The claim as stated fails: on a fresh instance, whose registry is empty, the promise
  returned for the name \<open>channelgraph\<close> is not resolved.
\<close>

theorem cancel_unregistered_counterexample:
  "map_of (subscriptions ready_service) ''channelgraph'' = None \<and>
   promises (snd (cancelSubscription ''channelgraph'' ready_service))
     (fst (cancelSubscription ''channelgraph'' ready_service)) \<noteq> Resolved"
  by (simp add: ready_service_def GrpcService_def cancelSubscription_def info_def Let_def)

lemma awaiting_step:
  assumes a: "awaiting c key p s" and e: "e \<noteq> StreamStatus c CANCELLED"
  shows "awaiting c key p (step e s)"
proof -
  note st = step_store[of s e]
  from a have pend: "promises s p = Pending" and lt: "p < next_promise s"
    and cl: "c < next_call s" and fr: "fresh_promises s"
    and mem: "(key, p) \<in> set (status_listeners (calls s c))"
    by (simp_all add: awaiting_def)
  from a have uniq: "\<And>c' l. l \<in> set (status_listeners (calls s c')) \<Longrightarrow> snd l = p \<Longrightarrow> c' = c"
    unfolding awaiting_def by blast
  have 1: "promises (step e s) p = Pending"
  proof (rule ccontr)
    assume "promises (step e s) p \<noteq> Pending"
    with pend have "promises (step e s) p \<noteq> promises s p" by simp
    with st lt obtain c' k where "e = StreamStatus c' CANCELLED"
      and "(k, p) \<in> set (status_listeners (calls s c'))"
      by blast
    with uniq[of "(k, p)" c'] e show False by simp
  qed
  have 2: "p < next_promise (step e s)" using st lt by simp
  have 3: "c < next_call (step e s)" using st cl by simp
  have 4: "fresh_promises (step e s)" by (rule fresh_promises_step[OF fr])
  have 5: "(key, p) \<in> set (status_listeners (calls (step e s) c))"
    using st cl mem by blast
  have 6: "c' = c" if "l \<in> set (status_listeners (calls (step e s) c'))" and "snd l = p" for c' l
  proof -
    from st that(1) have "l \<in> set (status_listeners (calls s c')) \<or> next_promise s \<le> snd l"
      by blast
    with that(2) lt have "l \<in> set (status_listeners (calls s c'))" by auto
    with uniq that(2) show ?thesis by blast
  qed
  from 1 2 3 4 5 6 show ?thesis
    unfolding awaiting_def by blast
qed

lemma awaiting_run:
  "awaiting c key p s \<Longrightarrow> StreamStatus c CANCELLED \<notin> set evs \<Longrightarrow> awaiting c key p (run evs s)"
proof (induction evs arbitrary: s)
  case Nil
  then show ?case by simp
next
  case (Cons e evs)
  from Cons.prems have "e \<noteq> StreamStatus c CANCELLED" and "StreamStatus c CANCELLED \<notin> set evs"
    by auto
  with Cons.IH[OF awaiting_step[OF Cons.prems(1) this(1)] this(2)] show ?case by simp
qed

lemma awaiting_confirm:
  assumes "awaiting c key p s"
  shows "promises (stream_status c CANCELLED s) p = Resolved \<and>
         map_of (subscriptions (stream_status c CANCELLED s)) key = None"
proof -
  from assms have pend: "promises s p = Pending"
    and mem: "(key, p) \<in> set (status_listeners (calls s c))"
    by (auto simp: awaiting_def)
  from fold_on_status_resolves[OF mem pend] fold_on_status_deletes[OF mem, of s]
  show ?thesis
    by (simp add: stream_status_fold keys_def map_of_eq_None_iff)
qed

lemma cancelSubscription_awaiting:
  assumes reg: "map_of (subscriptions s) key = Some c" and cl: "c < next_call s"
    and fr: "fresh_promises s" and cs: "cancelSubscription key s = (p, s1)"
  shows "awaiting c key p s1"
proof -
  note f = cancelSubscription_frame[OF cs]
  have l: "l \<in> set (status_listeners (calls s c')) \<or> (l = (key, p) \<and> c' = c)"
    if "l \<in> set (status_listeners (calls s1 c'))" for c' l
    using that reg f(1) f(12)[of c'] by (auto split: if_splits)
  have old: "snd l < p" if "l \<in> set (status_listeners (calls s c'))" for c' l
    using that fr f(1) by (auto simp: fresh_promises_def)
  have 1: "promises s1 p = Pending" using f(1) f(11) reg by simp
  have 2: "p < next_promise s1" using f(1,2) by simp
  have 3: "c < next_call s1" using f(7) cl by simp
  have 4: "fresh_promises s1"
    unfolding fresh_promises_def using l old 2 f(1,2) by fastforce
  have 5: "(key, p) \<in> set (status_listeners (calls s1 c))"
    using reg f(1) f(12)[of c] by simp
  have 6: "c' = c" if "l \<in> set (status_listeners (calls s1 c'))" and "snd l = p" for c' l
    using l[OF that(1)] old[of l c'] that(2) by auto
  from 1 2 3 4 5 6 show ?thesis
    unfolding awaiting_def by blast
qed

text \<open>
  C1. Let a name be registered with a stream that has been opened, on an instance whose
  listeners hold promises that exist. \<open>_cancelSubscription\<close> requests the cancellation
  and returns a promise that is pending, and stays pending through every sequence of
  events in which that stream does not report a status with the code \<open>CANCELLED\<close>:
  issuing the request does not resolve it, nor does a status with another code, the end
  of the stream, or anything that happens to other streams or to the state machine. When
  the stream then reports \<open>CANCELLED\<close>, the promise is resolved and the name is no longer
  in the registry.
\<close>

theorem cancel_confirmed:
  assumes "map_of (subscriptions s) key = Some c" and "c < next_call s" and "fresh_promises s"
  shows "case cancelSubscription key s of
           (p, s1) \<Rightarrow>
             cancels (calls s1 c) = Suc (cancels (calls s c)) \<and>
             (\<forall>evs. StreamStatus c CANCELLED \<notin> set evs \<longrightarrow>
                promises (run evs s1) p = Pending \<and>
                promises (stream_status c CANCELLED (run evs s1)) p = Resolved \<and>
                map_of (subscriptions (stream_status c CANCELLED (run evs s1))) key = None)"
proof -
  obtain p s1 where cs: "cancelSubscription key s = (p, s1)"
    by (cases "cancelSubscription key s")
  have c: "cancels (calls s1 c) = Suc (cancels (calls s c))"
    using cs assms(1) by (auto simp: cancelSubscription_def info_def Let_def)
  note a = cancelSubscription_awaiting[OF assms cs]
  have "promises (run evs s1) p = Pending \<and>
        promises (stream_status c CANCELLED (run evs s1)) p = Resolved \<and>
        map_of (subscriptions (stream_status c CANCELLED (run evs s1))) key = None"
    if "StreamStatus c CANCELLED \<notin> set evs" for evs
    using awaiting_run[OF a that] awaiting_confirm[of c key p "run evs s1"]
    by (simp add: awaiting_def)
  with c cs show ?thesis by simp
qed

lemma subscribed_eval:
  "subscriptions subscribed = [(''channelgraph'', 0), (''invoices'', 1)]"
  "next_call subscribed = 2" "next_promise subscribed = 0"
  "fsm_state subscribed = Connected" "fsm_pending subscribed = NoTransition"
  by (simp_all add: subscribed_def run_defs)

lemma subscribed_fresh: "fresh_promises subscribed"
  by (simp add: fresh_promises_def subscribed_def run_defs)

theorem cancel_confirmed_witness:
  "map_of (subscriptions subscribed) ''invoices'' = Some 1 \<and> 1 < next_call subscribed \<and>
   fresh_promises subscribed \<and>
   StreamStatus 1 CANCELLED \<notin> set [StreamStatus 1 OK, StreamEnd 1, StreamStatus 0 CANCELLED] \<and>
   (case cancelSubscription ''invoices'' subscribed of
      (p, s1) \<Rightarrow>
        cancels (calls s1 1) = 1 \<and> promises s1 p = Pending \<and>
        promises (run [StreamStatus 1 OK, StreamEnd 1, StreamStatus 0 CANCELLED] s1) p = Pending \<and>
        promises (stream_status 1 CANCELLED
          (run [StreamStatus 1 OK, StreamEnd 1, StreamStatus 0 CANCELLED] s1)) p = Resolved \<and>
        map_of (subscriptions (stream_status 1 CANCELLED
          (run [StreamStatus 1 OK, StreamEnd 1, StreamStatus 0 CANCELLED] s1))) ''invoices'' = None)"
proof -
  have h1: "map_of (subscriptions subscribed) ''invoices'' = Some 1"
    and h2: "1 < next_call subscribed"
    by (simp_all add: subscribed_eval)
  have h3: "fresh_promises subscribed"
    by (rule subscribed_fresh)
  have h4: "StreamStatus 1 CANCELLED \<notin> set [StreamStatus 1 OK, StreamEnd 1, StreamStatus 0 CANCELLED]"
    and h5: "StreamStatus 1 CANCELLED \<notin> set []"
    by (simp_all add: OK_def CANCELLED_def)
  have c0: "cancels (calls subscribed 1) = 0"
    by (simp add: subscribed_def run_defs)
  obtain p s1 where cs: "cancelSubscription ''invoices'' subscribed = (p, s1)"
    by (cases "cancelSubscription ''invoices'' subscribed")
  from cancel_confirmed [OF h1 h2 h3] cs
  have c: "cancels (calls s1 1) = Suc (cancels (calls subscribed 1))"
    and a: "\<And>evs. StreamStatus 1 CANCELLED \<notin> set evs \<Longrightarrow>
              promises (run evs s1) p = Pending \<and>
              promises (stream_status 1 CANCELLED (run evs s1)) p = Resolved \<and>
              map_of (subscriptions (stream_status 1 CANCELLED (run evs s1))) ''invoices'' = None"
    by simp_all
  from a[OF h5] have "promises s1 p = Pending" by simp
  with a[OF h4] c c0 h1 h2 h3 h4 cs show ?thesis by simp
qed

subsection \<open>A stream that ends during the teardown\<close>

lemma promise_all_Pending:
  "ps \<noteq> [] \<Longrightarrow> \<forall>p \<in> set ps. pr p = Pending \<Longrightarrow> promise_all pr ps = Pending"
proof (induction ps)
  case Nil
  then show ?case by simp
next
  case (Cons p ps)
  show ?case
  proof (cases "ps = []")
    case True
    with Cons.prems show ?thesis by simp
  next
    case False
    with Cons have "promise_all pr ps = Pending" by simp
    with Cons.prems show ?thesis by simp
  qed
qed

lemma promise_all_Resolved:
  "promise_all pr ps = Resolved \<longleftrightarrow> (\<forall>p \<in> set ps. pr p = Resolved)"
  by (induction ps) (auto split: promise.splits)

lemma natural_end_promises:
  "\<forall>e \<in> set evs. ends_naturally c e \<Longrightarrow> promises (run evs s) = promises s"
proof (induction evs arbitrary: s)
  case Nil
  then show ?case by simp
next
  case (Cons e evs)
  then have "ends_naturally c e" by simp
  then have "promises (step e s) = promises s"
    by (cases e) (simp_all add: stream_status_fold(1) stream_end_def)
  with Cons show ?case by simp
qed

text \<open>
  C9, as the code has it. Let a name be registered with a stream, and let the stream end
  naturally while its cancellation is in flight: it reports statuses with codes other
  than \<open>CANCELLED\<close> and the end of the stream, in any order and number. No failure is
  raised, but nothing is resolved either: the promise of \<open>_cancelSubscription\<close> is still
  pending, and so is the \<open>Promise.all\<close> that \<open>unsubscribe\<close> waits for.
\<close>

theorem end_during_teardown:
  assumes "map_of (subscriptions s) key = Some c" and "\<forall>e \<in> set evs. ends_naturally c e"
  shows "(case cancelSubscription key s of
            (p, s1) \<Rightarrow> promises (run evs s1) p = Pending) \<and>
         (case unsubscribe s of
            (ps, s2) \<Rightarrow> promise_all (promises (run evs s2)) ps = Pending)"
proof -
  obtain p s1 where cs: "cancelSubscription key s = (p, s1)"
    by (cases "cancelSubscription key s")
  have a: "promises (run evs s1) p = Pending"
    using cancelSubscription_frame(1,11)[OF cs] assms
    by (simp add: natural_end_promises)
  let ?s0 = "info (UnsubscribingAll (map fst (subscriptions s))) s"
  obtain ps s2 where ce: "cancel_each (map fst (subscriptions s)) ?s0 = (ps, s2)"
    by (cases "cancel_each (map fst (subscriptions s)) ?s0")
  have s0: "subscriptions ?s0 = subscriptions s" by (simp add: info_def)
  have reg: "\<forall>k \<in> set (map fst (subscriptions s)). map_of (subscriptions ?s0) k \<noteq> None"
    by (simp add: s0 map_of_eq_None_iff)
  have "subscriptions s \<noteq> []" using assms(1) by auto
  then have ne: "ps \<noteq> []"
    using cancel_each_misc[OF ce] by auto
  have "\<forall>p \<in> set ps. promises s2 p = Pending"
    using cancel_each_pending[OF ce reg] by blast
  from promise_all_Pending[OF ne this]
  have b: "promise_all (promises (run evs s2)) ps = Pending"
    using assms(2) by (simp add: natural_end_promises)
  from a b cs ce show ?thesis
    by (simp add: unsubscribe_cancel_each)
qed

theorem end_during_teardown_witness:
  "map_of (subscriptions subscribed) ''invoices'' = Some 1 \<and>
   ends_naturally 1 (StreamStatus 1 OK) \<and> ends_naturally 1 (StreamEnd 1) \<and>
   promises (run [StreamStatus 1 OK, StreamEnd 1] (snd (cancelSubscription ''invoices'' subscribed)))
     (fst (cancelSubscription ''invoices'' subscribed)) = Pending \<and>
   promise_all (promises (run [StreamStatus 1 OK, StreamEnd 1] (snd (unsubscribe subscribed))))
     (fst (unsubscribe subscribed)) = Pending"
proof -
  have h1: "map_of (subscriptions subscribed) ''invoices'' = Some 1"
    by (simp add: subscribed_eval)
  have h2: "\<forall>e \<in> set [StreamStatus 1 OK, StreamEnd 1]. ends_naturally 1 e"
    by (simp add: OK_def CANCELLED_def)
  show ?thesis
    using h1 h2 end_during_teardown [OF h1 h2]
    by (simp add: split_beta del: run_Cons)
qed

text \<open>
  The claim as stated fails: with both streams registered, \<open>invoices\<close> reports the
  status \<open>OK\<close> and its end after the cancellation request; the promise is not resolved,
  and a disconnect in the same situation stays in flight, in state \<open>connected\<close>, although
  the registry is empty by then.
\<close>

theorem end_during_teardown_counterexample:
  "promises (run [StreamStatus 1 OK, StreamEnd 1] (snd (cancelSubscription ''invoices'' subscribed)))
     (fst (cancelSubscription ''invoices'' subscribed)) \<noteq> Resolved \<and>
   fsm_pending (run [CallDisconnect, StreamStatus 0 CANCELLED, StreamStatus 1 OK, StreamEnd 1]
     subscribed) = AwaitUnsubscribe [0, 1] \<and>
   fsm_state (run [CallDisconnect, StreamStatus 0 CANCELLED, StreamStatus 1 OK, StreamEnd 1]
     subscribed) = Connected \<and>
   subscriptions (run [CallDisconnect, StreamStatus 0 CANCELLED, StreamStatus 1 OK, StreamEnd 1]
     subscribed) = []"
  by (simp add: subscribed_def run_defs)

subsection \<open>Cancelling all subscriptions\<close>

lemma same_promise_same_key:
  assumes "distinct (map snd Z)" and "(a, p) \<in> set Z" and "(b, p) \<in> set Z"
  shows "a = b"
proof -
  have "inj_on snd (set Z)"
    using assms(1) by (simp add: distinct_map)
  from inj_onD[OF this, of "(a, p)" "(b, p)"] assms(2,3) show ?thesis by simp
qed

lemma tracked_step:
  assumes t: "tracked Z s" and e: "e \<noteq> DelayElapsed"
  shows "tracked Z (step e s) \<and> keys (step e s) \<subseteq> keys s"
proof -
  note st = step_store[of s e]
  from t have d: "distinct (map snd Z)" and fr: "fresh_promises s"
    by (simp_all add: tracked_def)
  from t have lt: "\<And>z. z \<in> set Z \<Longrightarrow> snd z < next_promise s"
    and res: "\<And>z. z \<in> set Z \<Longrightarrow> promises s (snd z) = Resolved \<Longrightarrow> fst z \<notin> keys s"
    and own: "\<And>c l. l \<in> set (status_listeners (calls s c)) \<Longrightarrow> snd l \<in> snd ` set Z \<Longrightarrow> l \<in> set Z"
    unfolding tracked_def by blast+
  from st e have k: "keys (step e s) \<subseteq> keys s" by blast
  from st have st3: "\<And>c l. l \<in> set (status_listeners (calls (step e s) c)) \<Longrightarrow>
      l \<in> set (status_listeners (calls s c)) \<or> next_promise s \<le> snd l"
    by blast
  have 1: "snd z < next_promise (step e s)" if "z \<in> set Z" for z
    using lt[OF that] st by simp
  have 2: "fst z \<notin> keys (step e s)" if z: "z \<in> set Z" and r: "promises (step e s) (snd z) = Resolved" for z
  proof (cases "promises s (snd z) = Resolved")
    case True
    from res[OF z True] k show ?thesis by blast
  next
    case False
    with r have "promises (step e s) (snd z) \<noteq> promises s (snd z)" by simp
    with st lt[OF z] obtain c k' where l: "(k', snd z) \<in> set (status_listeners (calls s c))"
      and nk: "k' \<notin> keys (step e s)"
      by blast
    have "snd (k', snd z) \<in> snd ` set Z" using z by simp
    from own[OF l this] have "(k', snd z) \<in> set Z" .
    moreover have "(fst z, snd z) \<in> set Z" using z by simp
    ultimately have "k' = fst z" using same_promise_same_key[OF d] by blast
    with nk show ?thesis by simp
  qed
  have 3: "l \<in> set Z" if l: "l \<in> set (status_listeners (calls (step e s) c))"
    and m: "snd l \<in> snd ` set Z" for c l
  proof -
    from m obtain z where z: "z \<in> set Z" and "snd l = snd z" by auto
    with lt[OF z] have "snd l < next_promise s" by simp
    with st3[OF l] have "l \<in> set (status_listeners (calls s c))" by auto
    from own[OF this m] show ?thesis .
  qed
  have "tracked Z (step e s)"
    unfolding tracked_def
  proof (intro conjI ballI allI impI)
    show "distinct (map snd Z)" by (rule d)
    show "fresh_promises (step e s)" by (rule fresh_promises_step[OF fr])
  next
    fix z assume "z \<in> set Z"
    then show "snd z < next_promise (step e s)" by (rule 1)
  next
    fix z assume "z \<in> set Z" and "promises (step e s) (snd z) = Resolved"
    then show "fst z \<notin> keys (step e s)" by (rule 2)
  next
    fix c l assume "l \<in> set (status_listeners (calls (step e s) c))" and "snd l \<in> snd ` set Z"
    then show "l \<in> set Z" by (rule 3)
  qed
  with k show ?thesis by simp
qed

lemma tracked_run:
  "tracked Z s \<Longrightarrow> DelayElapsed \<notin> set evs \<Longrightarrow> tracked Z (run evs s) \<and> keys (run evs s) \<subseteq> keys s"
proof (induction evs arbitrary: s)
  case Nil
  then show ?case by simp
next
  case (Cons e evs)
  from Cons.prems have e: "e \<noteq> DelayElapsed" and rest: "DelayElapsed \<notin> set evs" by auto
  note st = tracked_step[OF Cons.prems(1) e]
  from Cons.IH[of "step e s"] st rest
  have "tracked Z (run evs (step e s)) \<and> keys (run evs (step e s)) \<subseteq> keys (step e s)"
    by blast
  with st show ?case by auto
qed

lemma unsubscribe_tracked:
  assumes fr: "fresh_promises s" and u: "unsubscribe s = (ps, s1)"
  shows "tracked (zip (map fst (subscriptions s)) ps) s1"
    and "keys s1 = keys s" and "length ps = length (subscriptions s)"
proof -
  let ?ks = "map fst (subscriptions s)"
  let ?s0 = "info (UnsubscribingAll ?ks) s"
  from u have ce: "cancel_each ?ks ?s0 = (ps, s1)"
    by (simp add: unsubscribe_cancel_each)
  have s0: "subscriptions ?s0 = subscriptions s" "next_promise ?s0 = next_promise s"
    "calls ?s0 = calls s" "promises ?s0 = promises s"
    by (simp_all add: info_def)
  note m = cancel_each_misc[OF ce]
  from m have lb: "\<And>p. p \<in> set ps \<Longrightarrow> next_promise s \<le> p"
    and ub: "\<And>p. p \<in> set ps \<Longrightarrow> p < next_promise s1"
    and mono: "next_promise s \<le> next_promise s1"
    and dps: "distinct ps"
    by (simp_all add: s0)
  from m show len: "length ps = length (subscriptions s)" by simp
  from m show "keys s1 = keys s" by (simp add: keys_def s0)
  have ms: "map snd (zip ?ks ps) = ps"
    using len by (simp add: map_snd_zip)
  have sz: "snd ` set (zip ?ks ps) = set ps"
    using ms by (metis set_map)
  have 0: "distinct (map snd (zip ?ks ps))"
    using dps ms by simp
  have old: "snd l < next_promise s" if "l \<in> set (status_listeners (calls s c))" for c l
    using that fr by (auto simp: fresh_promises_def)
  have lis: "l \<in> set (status_listeners (calls s c)) \<or> l \<in> set (zip ?ks ps)"
    if "l \<in> set (status_listeners (calls s1 c))" for c l
    using cancel_each_listeners[OF ce that] by (auto simp: s0)
  have inps: "snd z \<in> set ps" if "z \<in> set (zip ?ks ps)" for z
    using that sz by blast
  have 1: "fresh_promises s1"
    unfolding fresh_promises_def
  proof (intro allI ballI)
    fix c l assume "l \<in> set (status_listeners (calls s1 c))"
    from lis[OF this] show "snd l < next_promise s1"
    proof
      assume "l \<in> set (status_listeners (calls s c))"
      from old[OF this] mono show ?thesis by simp
    next
      assume "l \<in> set (zip ?ks ps)"
      from ub[OF inps[OF this]] show ?thesis .
    qed
  qed
  have 2: "snd z < next_promise s1 \<and> (promises s1 (snd z) = Resolved \<longrightarrow> fst z \<notin> keys s1)"
    if "z \<in> set (zip ?ks ps)" for z
    using ub[OF inps[OF that]] cancel_each_unresolved[OF ce inps[OF that]] by simp
  have 3: "l \<in> set (zip ?ks ps)"
    if l: "l \<in> set (status_listeners (calls s1 c))" and "snd l \<in> snd ` set (zip ?ks ps)" for c l
  proof -
    from that(2) sz have "snd l \<in> set ps" by simp
    from lb[OF this] have "next_promise s \<le> snd l" .
    with old[of l c] have "l \<notin> set (status_listeners (calls s c))" by auto
    with lis[OF l] show ?thesis by simp
  qed
  show "tracked (zip ?ks ps) s1"
    unfolding tracked_def
  proof (intro conjI ballI allI impI)
    show "distinct (map snd (zip ?ks ps))" by (rule 0)
    show "fresh_promises s1" by (rule 1)
  next
    fix z assume "z \<in> set (zip ?ks ps)"
    from 2[OF this] show "snd z < next_promise s1" by simp
  next
    fix z assume "z \<in> set (zip ?ks ps)" and "promises s1 (snd z) = Resolved"
    with 2[of z] show "fst z \<notin> keys s1" by simp
  next
    fix c l assume "l \<in> set (status_listeners (calls s1 c))" and "snd l \<in> snd ` set (zip ?ks ps)"
    then show "l \<in> set (zip ?ks ps)" by (rule 3)
  qed
qed

lemma unsubscribe_awaiting:
  assumes fr: "fresh_promises s" and u: "unsubscribe s = (ps, s1)"
    and reg: "map_of (subscriptions s) key = Some c" and cl: "c < next_call s"
  shows "\<exists>p \<in> set ps. awaiting c key p s1"
proof -
  let ?ks = "map fst (subscriptions s)"
  let ?s0 = "info (UnsubscribingAll ?ks) s"
  from u have ce: "cancel_each ?ks ?s0 = (ps, s1)"
    by (simp add: unsubscribe_cancel_each)
  have s0: "subscriptions ?s0 = subscriptions s" "next_promise ?s0 = next_promise s"
    "calls ?s0 = calls s" "promises ?s0 = promises s" "next_call ?s0 = next_call s"
    by (simp_all add: info_def)
  note m = cancel_each_misc[OF ce]
  from m have lb: "\<And>p. p \<in> set ps \<Longrightarrow> next_promise s \<le> p"
    and ub: "\<And>p. p \<in> set ps \<Longrightarrow> p < next_promise s1"
    and dps: "distinct ps" and nc: "next_call s1 = next_call s"
    by (simp_all add: s0)
  note t = unsubscribe_tracked[OF fr u]
  from t(1) have fr1: "fresh_promises s1" by (simp add: tracked_def)
  have ms: "map snd (zip ?ks ps) = ps"
    using t(3) by (simp add: map_snd_zip)
  have d: "distinct (map snd (zip ?ks ps))"
    using dps ms by simp
  have kin: "key \<in> set ?ks"
    using reg by (force dest: map_of_SomeD simp: image_iff)
  from cancel_each_registered[OF ce kin] reg obtain p where p: "p \<in> set ps"
    and mem: "(key, p) \<in> set (status_listeners (calls s1 c))" and pend: "promises s1 p = Pending"
    by (auto simp: s0)
  have old: "snd l < next_promise s" if "l \<in> set (status_listeners (calls s c'))" for c' l
    using that fr by (auto simp: fresh_promises_def)
  have new: "l \<in> set (zip ?ks ps) \<and> map_of (subscriptions s) (fst l) = Some c'"
    if l: "l \<in> set (status_listeners (calls s1 c'))" and sp: "snd l = p" for c' l
  proof -
    from lb[OF p] have "next_promise s \<le> p" .
    with old[of l c'] sp have "l \<notin> set (status_listeners (calls s c'))" by auto
    with cancel_each_listeners[OF ce l] show ?thesis by (simp add: s0)
  qed
  have uniq: "c' = c" if l: "l \<in> set (status_listeners (calls s1 c'))" and sp: "snd l = p" for c' l
  proof -
    from new[OF l sp] have a: "(fst l, p) \<in> set (zip ?ks ps)"
      and b: "map_of (subscriptions s) (fst l) = Some c'"
      using sp by auto
    from new[OF mem] have "(key, p) \<in> set (zip ?ks ps)" by simp
    with a same_promise_same_key[OF d] have "fst l = key" by blast
    with b reg show ?thesis by simp
  qed
  have "awaiting c key p s1"
    unfolding awaiting_def
  proof (intro conjI allI impI)
    show "promises s1 p = Pending" by (rule pend)
    show "p < next_promise s1" by (rule ub[OF p])
    show "c < next_call s1" using cl nc by simp
    show "fresh_promises s1" by (rule fr1)
    show "(key, p) \<in> set (status_listeners (calls s1 c))" by (rule mem)
  next
    fix c' l assume "l \<in> set (status_listeners (calls s1 c'))" and "snd l = p"
    then show "c' = c" by (rule uniq)
  qed
  with p show ?thesis by blast
qed

lemma keys_empty: "keys s = {} \<longleftrightarrow> subscriptions s = []"
  by (simp add: keys_def)

text \<open>
  C6, as the code has it. On an instance whose listeners hold promises that exist and
  whose registered streams have been opened: \<open>unsubscribe\<close> on an empty registry
  resolves at once and changes nothing but the log, where it writes its one line; in
  every case, as long as the confirmation of some stream registered at its start has not
  arrived, it is not resolved; and once it is resolved the registry is empty, provided
  the settling delay has not elapsed in between (which can register streams anew).
\<close>

theorem unsubscribe_all:
  assumes "fresh_promises s" and "\<forall>z \<in> set (subscriptions s). snd z < next_call s"
  shows "case unsubscribe s of
           (ps, s1) \<Rightarrow>
             (subscriptions s = [] \<longrightarrow>
                ps = [] \<and> s1 = info (UnsubscribingAll []) s \<and> promise_all (promises s1) ps = Resolved) \<and>
             (\<forall>key c evs. map_of (subscriptions s) key = Some c \<longrightarrow>
                StreamStatus c CANCELLED \<notin> set evs \<longrightarrow>
                promise_all (promises (run evs s1)) ps \<noteq> Resolved) \<and>
             (\<forall>evs. DelayElapsed \<notin> set evs \<longrightarrow>
                promise_all (promises (run evs s1)) ps = Resolved \<longrightarrow>
                subscriptions (run evs s1) = [])"
proof -
  obtain ps s1 where u: "unsubscribe s = (ps, s1)"
    by (cases "unsubscribe s")
  let ?Z = "zip (map fst (subscriptions s)) ps"
  note t = unsubscribe_tracked[OF assms(1) u]
  have a: "ps = [] \<and> s1 = info (UnsubscribingAll []) s \<and> promise_all (promises s1) ps = Resolved"
    if "subscriptions s = []"
    using u that by (auto simp: unsubscribe_def)
  have b: "promise_all (promises (run evs s1)) ps \<noteq> Resolved"
    if reg: "map_of (subscriptions s) key = Some c" and ev: "StreamStatus c CANCELLED \<notin> set evs"
    for key c evs
  proof -
    from reg have "(key, c) \<in> set (subscriptions s)" by (rule map_of_SomeD)
    with assms(2) have "c < next_call s" by auto
    from unsubscribe_awaiting[OF assms(1) u reg this]
    obtain p where p: "p \<in> set ps" and aw: "awaiting c key p s1" by blast
    from awaiting_run[OF aw ev] have "promises (run evs s1) p = Pending"
      by (simp add: awaiting_def)
    then have "promises (run evs s1) p \<noteq> Resolved" by simp
    with p show ?thesis unfolding promise_all_Resolved by blast
  qed
  have c: "subscriptions (run evs s1) = []"
    if ev: "DelayElapsed \<notin> set evs" and r: "promise_all (promises (run evs s1)) ps = Resolved"
    for evs
  proof -
    from tracked_run[OF t(1) ev] have tr: "tracked ?Z (run evs s1)"
      and sub: "keys (run evs s1) \<subseteq> keys s1" by simp_all
    have "k \<notin> keys (run evs s1)" if k: "k \<in> keys (run evs s1)" for k
    proof -
      from k sub t(2) have "k \<in> set (map fst (subscriptions s))" by (auto simp: keys_def)
      with t(3) obtain p where z: "(k, p) \<in> set ?Z"
        by (metis in_set_impl_in_set_zip1 length_map)
      then have "p \<in> set ps" by (rule set_zip_rightD)
      with r have "promises (run evs s1) p = Resolved" by (simp add: promise_all_Resolved)
      with tr z show ?thesis by (auto simp: tracked_def)
    qed
    then have "keys (run evs s1) = {}" by blast
    then show ?thesis by (simp add: keys_empty)
  qed
  from a b c u show ?thesis by simp
qed

theorem unsubscribe_all_witness:
  "fresh_promises ready_service \<and> subscriptions ready_service = [] \<and>
   unsubscribe ready_service = ([], info (UnsubscribingAll []) ready_service) \<and>
   promise_all (promises (snd (unsubscribe ready_service))) (fst (unsubscribe ready_service)) = Resolved \<and>
   fresh_promises subscribed \<and>
   subscriptions subscribed = [(''channelgraph'', 0), (''invoices'', 1)] \<and> next_call subscribed = 2 \<and>
   StreamStatus 1 CANCELLED \<notin> set [StreamStatus 0 CANCELLED, StreamEnd 1] \<and>
   promise_all (promises (run [StreamStatus 0 CANCELLED, StreamEnd 1] (snd (unsubscribe subscribed))))
     (fst (unsubscribe subscribed)) \<noteq> Resolved \<and>
   DelayElapsed \<notin> set [StreamStatus 0 CANCELLED, StreamStatus 1 CANCELLED] \<and>
   promise_all (promises (run [StreamStatus 0 CANCELLED, StreamStatus 1 CANCELLED]
     (snd (unsubscribe subscribed)))) (fst (unsubscribe subscribed)) = Resolved \<and>
   subscriptions (run [StreamStatus 0 CANCELLED, StreamStatus 1 CANCELLED]
     (snd (unsubscribe subscribed))) = []"
proof -
  have r1: "fresh_promises ready_service"
    by (simp add: fresh_promises_def ready_service_def GrpcService_def new_call_def)
  have r2: "\<forall>z \<in> set (subscriptions ready_service). snd z < next_call ready_service"
    and r3: "subscriptions ready_service = []"
    by (simp_all add: ready_service_def GrpcService_def)
  have s1: "fresh_promises subscribed"
    by (rule subscribed_fresh)
  have s2: "\<forall>z \<in> set (subscriptions subscribed). snd z < next_call subscribed"
    by (simp add: subscribed_eval)
  have e1: "StreamStatus 1 CANCELLED \<notin> set [StreamStatus 0 CANCELLED, StreamEnd 1]"
    and e2: "DelayElapsed \<notin> set [StreamStatus 0 CANCELLED, StreamStatus 1 CANCELLED]"
    and m: "map_of (subscriptions subscribed) ''invoices'' = Some 1"
    by (simp_all add: subscribed_eval)
  have res: "promise_all (promises (run [StreamStatus 0 CANCELLED, StreamStatus 1 CANCELLED]
     (snd (unsubscribe subscribed)))) (fst (unsubscribe subscribed)) = Resolved"
    by (simp add: subscribed_def run_defs)
  obtain ps0 t0 where u0: "unsubscribe ready_service = (ps0, t0)"
    by (cases "unsubscribe ready_service")
  obtain ps t where u: "unsubscribe subscribed = (ps, t)"
    by (cases "unsubscribe subscribed")
  from unsubscribe_all [OF r1 r2] u0 r3
  have a: "ps0 = [] \<and> t0 = info (UnsubscribingAll []) ready_service \<and>
           promise_all (promises t0) ps0 = Resolved"
    by simp
  from unsubscribe_all [OF s1 s2] u
  have b: "\<And>key c evs. map_of (subscriptions subscribed) key = Some c \<Longrightarrow>
             StreamStatus c CANCELLED \<notin> set evs \<Longrightarrow>
             promise_all (promises (run evs t)) ps \<noteq> Resolved"
    and c: "\<And>evs. DelayElapsed \<notin> set evs \<Longrightarrow>
             promise_all (promises (run evs t)) ps = Resolved \<Longrightarrow> subscriptions (run evs t) = []"
    by simp_all
  from b[OF m e1] c[OF e2] res u
  have "promise_all (promises (run [StreamStatus 0 CANCELLED, StreamEnd 1] t)) ps \<noteq> Resolved"
    and "subscriptions (run [StreamStatus 0 CANCELLED, StreamStatus 1 CANCELLED] t) = []"
    by simp_all
  with a u0 u r1 r3 s1 e1 e2 res show ?thesis
    by (simp add: subscribed_eval del: run_Cons)
qed

text \<open>
  The claim as stated fails: two connects within the delay leave a second timer pending;
  it fires while the two cancellations are in flight, the state being \<open>connected\<close> until
  the teardown is over, and the override registers its streams again. When the second
  confirmation arrives \<open>unsubscribe\<close> is resolved and the disconnect completes, with
  \<open>channelgraph\<close> in the registry.
\<close>

theorem unsubscribe_all_counterexample:
  "promise_all
     (promises (run [StreamStatus 0 CANCELLED, DelayElapsed, StreamStatus 1 CANCELLED]
        (snd (unsubscribe reconnected))))
     (fst (unsubscribe reconnected)) = Resolved \<and>
   subscriptions (run [StreamStatus 0 CANCELLED, DelayElapsed, StreamStatus 1 CANCELLED]
     (snd (unsubscribe reconnected))) = [(''channelgraph'', 2)] \<and>
   fsm_state (run [CallDisconnect, StreamStatus 0 CANCELLED, DelayElapsed, StreamStatus 1 CANCELLED]
     reconnected) = Ready \<and>
   subscriptions (run [CallDisconnect, StreamStatus 0 CANCELLED, DelayElapsed, StreamStatus 1 CANCELLED]
     reconnected) = [(''channelgraph'', 2)]"
  by (simp add: reconnected_def cycle_done_def run_defs)

subsection \<open>The states that a run reaches\<close>

text \<open>
  The conditions under which the properties above are stated hold in every state that
  the events lead to from a new instance: every \<open>status\<close> listener holds a promise that
  exists, every registered stream has been opened, at most the current handle is open,
  and no handle is open while the machine is \<open>ready\<close> with no transition in flight.
\<close>

lemma set_delete_subset: "set (AList.delete k al) \<subseteq> set al"
  by (auto simp: AList.delete_eq)

lemma set_fold_delete_subset: "set (fold AList.delete ks al) \<subseteq> set al"
proof (induction ks arbitrary: al)
  case Nil
  then show ?case by simp
next
  case (Cons k ks)
  have "set (fold AList.delete ks (AList.delete k al)) \<subseteq> set (AList.delete k al)"
    by (rule Cons.IH)
  with set_delete_subset[of k al] show ?case by auto
qed

lemma set_update_subset: "set (AList.update k v al) \<subseteq> insert (k, v) (set al)"
  by (induction al) auto

lemma fold_on_status_set:
  "set (subscriptions (fold (on_status code) ls s)) \<subseteq> set (subscriptions s)"
proof (induction ls arbitrary: s)
  case Nil
  then show ?case by simp
next
  case (Cons l ls)
  have "set (subscriptions (fold (on_status code) ls (on_status code l s)))
          \<subseteq> set (subscriptions (on_status code l s))"
    by (rule Cons.IH)
  moreover have "set (subscriptions (on_status code l s)) \<subseteq> set (subscriptions s)"
    using set_delete_subset[of "fst l" "subscriptions s"] by (simp add: on_status_subscriptions)
  ultimately show ?case by auto
qed

lemma fold_open_stream_opened:
  "opened s \<Longrightarrow> opened (fold open_stream ns s)"
proof (induction ns arbitrary: s)
  case Nil
  then show ?case by simp
next
  case (Cons n ns)
  have "opened (open_stream n s)"
    unfolding opened_def
  proof
    fix z assume "z \<in> set (subscriptions (open_stream n s))"
    then have "z \<in> insert (n, next_call s) (set (subscriptions s))"
      using set_update_subset[of n "next_call s" "subscriptions s"] by (auto simp: open_stream_def)
    with Cons.prems show "snd z < next_call (open_stream n s)"
      by (auto simp: opened_def less_Suc_eq)
  qed
  from Cons.IH[OF this] show ?case by simp
qed

lemma opened_step:
  assumes "opened s"
  shows "opened (step e s)"
proof (cases e)
  case (CallConnect env)
  with assms connect_store[of env s] show ?thesis by (simp add: opened_def)
next
  case (ProbeDone r)
  with assms waitForReady_done_store[of r s] show ?thesis by (simp add: opened_def)
next
  case CallDisconnect
  with assms disconnect_store[of s] show ?thesis by (simp add: opened_def)
next
  case DelayElapsed
  show ?thesis
  proof (cases "timers s")
    case Nil
    with assms DelayElapsed show ?thesis by (simp add: delay_elapsed_def)
  next
    case (Cons d ds)
    let ?s1 = "s\<lparr>timers := ds\<rparr>"
    have o1: "opened (?s1\<lparr>subscribe_count := Suc (subscribe_count ?s1)\<rparr>)"
      using assms by (simp add: opened_def)
    have "opened (fold open_stream (stream_names ?s1) ?s1)"
      using fold_open_stream_opened[of ?s1 "stream_names ?s1"] assms by (simp add: opened_def)
    then have "opened (subscribe_override ?s1)"
      by (simp add: opened_def subscribe_override_def subscribe_def)
    with assms DelayElapsed Cons show ?thesis
      by (simp add: delay_elapsed_def Let_def opened_def)
  qed
next
  case (StreamStatus c code)
  have "set (subscriptions (stream_status c code s)) \<subseteq> set (subscriptions s)"
    using fold_on_status_set[of code "status_listeners (calls s c)" s]
    by (simp add: stream_status_fold)
  with assms StreamStatus stream_status_store[of c code s] show ?thesis
    by (auto simp: opened_def)
next
  case (StreamEnd c)
  have "set (subscriptions (stream_end c s)) \<subseteq> set (subscriptions s)"
    using set_fold_delete_subset[of "end_listeners (calls s c)" "subscriptions s"]
    by (simp add: stream_end_def fold_on_end_closed)
  with assms StreamEnd stream_end_store[of c s] show ?thesis
    by (auto simp: opened_def)
qed

lemma opened_run: "opened s \<Longrightarrow> opened (run evs s)"
  by (induction evs arbitrary: s) (simp_all add: opened_step)

lemma establishConnection_failed:
  "establishConnection opts env s = (Inl e, s') \<Longrightarrow>
   clients s' = clients s \<and> service s' = service s \<and> fsm_state s' = fsm_state s \<and>
   fsm_pending s' = fsm_pending s"
  by (auto simp: establishConnection_def called_def info_def Let_def
      split: sum.splits option.splits if_splits prod.splits dest!: build_creds_frame)

lemma subscribe_override_handles:
  "clients (subscribe_override s) = clients s \<and> service (subscribe_override s) = service s \<and>
   fsm_state (subscribe_override s) = fsm_state s \<and> fsm_pending (subscribe_override s) = fsm_pending s"
proof -
  have a: "clients (fold attach_end ks s) = clients s \<and> service (fold attach_end ks s) = service s \<and>
           fsm_state (fold attach_end ks s) = fsm_state s \<and>
           fsm_pending (fold attach_end ks s) = fsm_pending s" for ks s
    by (induction ks arbitrary: s) (simp_all add: attach_end_def split: option.splits)
  have b: "clients (fold open_stream ns s) = clients s \<and> service (fold open_stream ns s) = service s \<and>
           fsm_state (fold open_stream ns s) = fsm_state s \<and>
           fsm_pending (fold open_stream ns s) = fsm_pending s" for ns s
    by (induction ns arbitrary: s) (simp_all add: open_stream_def)
  show ?thesis
    by (simp add: subscribe_override_def subscribe_def a b)
qed

lemma close_all_closed:
  assumes "\<forall>i < length (clients s). \<not> closed (clients s ! i) \<longrightarrow> service s = Some i"
  shows "list_all closed (clients (close s))"
proof (cases "service s")
  case None
  with assms show ?thesis
    by (auto simp: close_def list_all_length)
next
  case (Some j)
  have "closed ((clients s)[j := (clients s ! j)\<lparr>closed := True\<rparr>] ! n)"
    if n: "n < length (clients s)" for n
  proof (cases "n = j")
    case True
    with n show ?thesis by simp
  next
    case False
    with assms n Some have "closed (clients s ! n)" by auto
    with False show ?thesis by simp
  qed
  with Some show ?thesis
    by (simp add: close_def list_all_length)
qed

lemma close_only_service:
  assumes "\<forall>i < length (clients s). \<not> closed (clients s ! i) \<longrightarrow> service s = Some i"
  shows "\<forall>i < length (clients (close s)). \<not> closed (clients (close s) ! i) \<longrightarrow> service (close s) = Some i"
  using close_all_closed[OF assms] by (auto simp: list_all_length)

lemma resume_handles_ok:
  assumes only: "\<forall>i < length (clients s). \<not> closed (clients s ! i) \<longrightarrow> service s = Some i"
    and st: "fsm_state s = Connected"
  shows "handles_ok (snd (onBeforeDisconnect_resume ps s))"
proof (cases "promise_all (promises s) ps")
  case Pending
  with only st show ?thesis
    by (simp add: onBeforeDisconnect_resume_def handles_ok_def)
next
  case Resolved
  with close_all_closed[OF only] close_only_service[OF only] show ?thesis
    by (simp add: onBeforeDisconnect_resume_def handles_ok_def)
next
  case (Rejected e)
  with only st show ?thesis
    by (simp add: onBeforeDisconnect_resume_def handles_ok_def)
qed

lemma handles_ok_step:
  assumes h: "handles_ok s"
  shows "handles_ok (step e s)"
proof -
  from h have only: "\<forall>i < length (clients s). \<not> closed (clients s ! i) \<longrightarrow> service s = Some i"
    by (simp add: handles_ok_def)
  show ?thesis
  proof (cases e)
    case (CallConnect env)
    show ?thesis
    proof (cases "fire Connect s")
      case (Inl err)
      with CallConnect h show ?thesis by (simp add: connect_def)
    next
      case (Inr to)
      then have st: "fsm_state s = Ready" "fsm_pending s = NoTransition"
        by (cases "fsm_state s"; auto simp: fire_def split: if_splits)+
      with h have allc: "list_all closed (clients s)" by (simp add: handles_ok_def)
      let ?s0 = "info Connecting (s\<lparr>fsm_pending := AwaitReady\<rparr>)"
      obtain r s1 where est: "establishConnection (getConnectionSettings s) env ?s0 = (r, s1)"
        by (cases "establishConnection (getConnectionSettings s) env ?s0")
      show ?thesis
      proof (cases r)
        case (Inl err)
        with establishConnection_failed[of "getConnectionSettings s" env ?s0 err s1] est
        have "clients s1 = clients s" "service s1 = service s" "fsm_state s1 = Ready"
          using st by (simp_all add: info_def)
        with Inl Inr est CallConnect only allc show ?thesis
          by (simp add: connect_def handles_ok_def)
      next
        case (Inr u)
        with establishConnection_probe[of "getConnectionSettings s" env ?s0 u s1] est
        obtain cr where "service s1 = Some (length (clients s))"
          and cl: "clients s1 = clients s @
            [\<lparr>client_host = host (lndConfig s), client_creds = cr, closed = False\<rparr>]"
          and "fsm_state s1 = Ready" and "fsm_pending s1 = AwaitReady"
          using st by (auto simp: info_def)
        moreover have "service s1 = Some i"
          if "i < length (clients s1)" and "\<not> closed (clients s1 ! i)" for i
        proof -
          have "i = length (clients s)"
            using that allc cl by (auto simp: list_all_length nth_append less_Suc_eq split: if_splits)
          with \<open>service s1 = Some (length (clients s))\<close> show ?thesis by simp
        qed
        ultimately show ?thesis
          using Inr \<open>fire Connect s = Inr to\<close> est CallConnect
          by (simp add: connect_def handles_ok_def)
      qed
    qed
  next
    case (ProbeDone r)
    show ?thesis
    proof (cases "fsm_pending s = AwaitReady")
      case False
      with ProbeDone h show ?thesis by (simp add: waitForReady_done_def)
    next
      case True
      with h have st: "fsm_state s = Ready" by (simp add: handles_ok_def)
      show ?thesis
      proof (cases r)
        case (Inl err)
        let ?s1 = "info (UnableToConnect err) s"
        have o1: "\<forall>i < length (clients ?s1). \<not> closed (clients ?s1 ! i) \<longrightarrow> service ?s1 = Some i"
          using only by (simp add: info_def)
        from close_all_closed[OF o1] close_only_service[OF o1] Inl True ProbeDone show ?thesis
          by (simp add: waitForReady_done_def handles_ok_def)
      next
        case (Inr u)
        with True ProbeDone only show ?thesis
          by (simp add: waitForReady_done_def handles_ok_def onAfterConnect_def info_def)
      qed
    qed
  next
    case CallDisconnect
    show ?thesis
    proof (cases "fire Disconnect s")
      case (Inl err)
      with CallDisconnect h show ?thesis by (simp add: disconnect_def)
    next
      case (Inr to)
      then have st: "fsm_state s = Connected"
        by (cases "fsm_state s") (auto simp: fire_def split: if_splits)
      let ?s0 = "info (UnsubscribingAll (map fst (subscriptions s)))
                   (info Disconnecting (s\<lparr>fsm_pending := AwaitUnsubscribe []\<rparr>))"
      obtain ps s1 where ce: "cancel_each (map fst (subscriptions s)) ?s0 = (ps, s1)"
        by (cases "cancel_each (map fst (subscriptions s)) ?s0")
      have d: "snd (disconnect s) = snd (onBeforeDisconnect_resume ps s1)"
        using Inr ce by (simp add: disconnect_def unsubscribe_def info_def split: prod.splits)
      from cancel_each_handles[OF ce] cancel_each_misc[OF ce]
      have "clients s1 = clients s" "service s1 = service s" "fsm_state s1 = Connected"
        using st by (simp_all add: info_def)
      with only have "\<forall>i < length (clients s1). \<not> closed (clients s1 ! i) \<longrightarrow> service s1 = Some i"
        by simp
      from resume_handles_ok[OF this \<open>fsm_state s1 = Connected\<close>] d CallDisconnect
      show ?thesis by simp
    qed
  next
    case DelayElapsed
    show ?thesis
    proof (cases "timers s")
      case Nil
      with DelayElapsed h show ?thesis by (simp add: delay_elapsed_def)
    next
      case (Cons d ds)
      let ?s1 = "s\<lparr>timers := ds\<rparr>"
      have h1: "handles_ok ?s1"
        using h by (simp add: handles_ok_def split: in_flight.splits)
      have "handles_ok (subscribe_override ?s1)"
        using h1 subscribe_override_handles[of ?s1]
        by (simp add: handles_ok_def split: in_flight.splits)
      with h1 DelayElapsed Cons show ?thesis
        by (simp add: delay_elapsed_def Let_def)
    qed
  next
    case (StreamStatus c code)
    let ?s1 = "fold (on_status code) (status_listeners (calls s c)) s"
    have o1: "\<forall>i < length (clients ?s1). \<not> closed (clients ?s1 ! i) \<longrightarrow> service ?s1 = Some i"
      using only by simp
    show ?thesis
    proof (cases "fsm_pending s")
      case NoTransition
      with StreamStatus h show ?thesis by (simp add: stream_status_def Let_def handles_ok_def)
    next
      case AwaitReady
      with StreamStatus h show ?thesis by (simp add: stream_status_def Let_def handles_ok_def)
    next
      case (AwaitUnsubscribe ps)
      with h have "fsm_state ?s1 = Connected" by (simp add: handles_ok_def)
      from resume_handles_ok[OF o1 this, of ps] AwaitUnsubscribe StreamStatus show ?thesis
        by (simp add: stream_status_def Let_def)
    qed
  next
    case (StreamEnd c)
    with h show ?thesis
      by (simp add: stream_end_def handles_ok_def split: in_flight.splits)
  qed
qed

lemma handles_ok_run: "handles_ok s \<Longrightarrow> handles_ok (run evs s)"
  by (induction evs arbitrary: s) (simp_all add: handles_ok_step)

lemma reachable_invariants:
  "fresh_promises (run evs (GrpcService name cfg names)) \<and>
   opened (run evs (GrpcService name cfg names)) \<and>
   handles_ok (run evs (GrpcService name cfg names))"
proof -
  have "fresh_promises (GrpcService name cfg names)"
    by (simp add: fresh_promises_def GrpcService_def new_call_def)
  moreover have "opened (GrpcService name cfg names)"
    by (simp add: opened_def GrpcService_def)
  moreover have "handles_ok (GrpcService name cfg names)"
    by (simp add: handles_ok_def GrpcService_def)
  ultimately show ?thesis
    by (simp add: fresh_promises_run opened_run handles_ok_run)
qed

lemma ready_idle_all_closed:
  "fsm_state (run evs (GrpcService name cfg names)) = Ready \<Longrightarrow>
   fsm_pending (run evs (GrpcService name cfg names)) = NoTransition \<Longrightarrow>
   list_all closed (clients (run evs (GrpcService name cfg names)))"
  using reachable_invariants[of evs name cfg names] by (simp add: handles_ok_def)

end
